theory Spec2Isabelle
  imports Complex_Main "HOL-Library.Word"
begin

section \<open>JavaScript strings\<close>

text \<open>
  A JavaScript string is a sequence of UTF-16 code units; \<open>length\<close>, indexing, \<open>slice\<close>,
  \<open>trim\<close> and the regular expressions of the source (none has the \<open>u\<close> flag) all work
  on code units.  \<open>ch\<close> and \<open>js\<close> embed an ASCII character and an ASCII literal.
\<close>

type_synonym jschar = "16 word"
type_synonym jsstring = "jschar list"

definition ch :: "char \<Rightarrow> jschar" where
  "ch c = of_nat (of_char c)"

definition js :: "string \<Rightarrow> jsstring" where
  "js s = map ch s"

text \<open>Line terminators of ECMAScript: LF, CR, LS, PS.\<close>

definition isLineTerminator :: "jschar \<Rightarrow> bool" where
  "isLineTerminator c \<longleftrightarrow> c = 0x0A \<or> c = 0x0D \<or> c = 0x2028 \<or> c = 0x2029"

text \<open>
  The characters removed by \<open>trim()\<close> and matched by \<open>\s\<close>: ECMAScript white space
  (TAB, VT, FF, SP, NBSP, ZWNBSP and the space separators of Unicode) and line terminators.
\<close>

definition isWhiteSpace :: "jschar \<Rightarrow> bool" where
  "isWhiteSpace c \<longleftrightarrow>
     c = 0x09 \<or> c = 0x0A \<or> c = 0x0B \<or> c = 0x0C \<or> c = 0x0D \<or> c = 0x20 \<or> c = 0xA0 \<or>
     c = 0x1680 \<or> (0x2000 \<le> c \<and> c \<le> 0x200A) \<or> c = 0x2028 \<or> c = 0x2029 \<or>
     c = 0x202F \<or> c = 0x205F \<or> c = 0x3000 \<or> c = 0xFEFF"

definition trim :: "jsstring \<Rightarrow> jsstring" where
  "trim s = rev (dropWhile isWhiteSpace (rev (dropWhile isWhiteSpace s)))"

text \<open>\<open>s.slice(a, b)\<close> for non-negative integers: clamped to the string, empty when \<open>b \<le> a\<close>.\<close>

definition slice :: "jsstring \<Rightarrow> nat \<Rightarrow> nat \<Rightarrow> jsstring" where
  "slice s a b = take (b - a) (drop a s)"

text \<open>\<open>s[i]\<close>: \<open>undefined\<close> (here \<open>None\<close>) outside the string.\<close>

definition charAt :: "jsstring \<Rightarrow> nat \<Rightarrow> jschar option" where
  "charAt s i = (if i < length s then Some (s ! i) else None)"

section \<open>The chunker: \<open>splitTextIntoChunks\<close>\<close>

text \<open>\<open>sentenceEnds.includes(text[i])\<close> with \<open>sentenceEnds = [".", "!", "?"]\<close>.\<close>

definition isSentenceEnd :: "jschar option \<Rightarrow> bool" where
  "isSentenceEnd c \<longleftrightarrow>
     c = Some (ch CHR ''.'') \<or> c = Some (ch CHR ''!'') \<or> c = Some (ch CHR ''?'')"

text \<open>
  The backward scan \<open>for (let i = end; i >= searchStart; i--)\<close> with
  \<open>searchStart = Math.max(start + maxChunkSize * 0.8, start)\<close>.  The chunk size is a
  natural number here, so \<open>searchStart = start + 0.8 * maxChunkSize\<close> and the loop test
  \<open>i >= searchStart\<close> on the integer \<open>i\<close> is \<open>5 * i \<ge> 5 * start + 4 * maxChunkSize\<close>
  (the double nearest to 0.8 exceeds it by a factor of \<open>1 + 2^-54\<close>, too little to move
  the product across an integer for any length a string can have).
  The result is \<open>bestBreak\<close>: \<open>i + 1\<close> at the first sentence end met, \<open>-1\<close> when the scan
  leaves the search span without one.
\<close>

fun searchBreak :: "jsstring \<Rightarrow> nat \<Rightarrow> nat \<Rightarrow> nat \<Rightarrow> int" where
  "searchBreak text start maxChunkSize 0 =
     (if 5 * 0 \<ge> 5 * start + 4 * maxChunkSize \<and> isSentenceEnd (charAt text 0) then 1 else -1)"
| "searchBreak text start maxChunkSize (Suc i) =
     (if 5 * Suc i \<ge> 5 * start + 4 * maxChunkSize
      then (if isSentenceEnd (charAt text (Suc i)) then int (Suc i) + 1
            else searchBreak text start maxChunkSize i)
      else -1)"

text \<open>The \<open>end\<close> of the chunk that begins at \<open>start\<close>.\<close>

definition chunkEnd :: "jsstring \<Rightarrow> nat \<Rightarrow> nat \<Rightarrow> nat" where
  "chunkEnd text maxChunkSize start =
     (let end = start + maxChunkSize in
      if end < length text
      then (let bestBreak = searchBreak text start maxChunkSize end in
            if bestBreak > int start then nat bestBreak else end)
      else end)"

text \<open>
  The \<open>while (start < text.length)\<close> loop.  With \<open>maxChunkSize = 0\<close> and no sentence end
  at \<open>start\<close> the source never leaves the loop, so the loop is a partial function:
  \<open>None\<close> is "does not return".
\<close>

partial_function (option) splitLoop ::
  "jsstring \<Rightarrow> nat \<Rightarrow> nat \<Rightarrow> jsstring list \<Rightarrow> jsstring list option" where
  "splitLoop text maxChunkSize start chunks =
     (if start < length text
      then (let end = chunkEnd text maxChunkSize start;
                chunk = trim (slice text start end)
            in splitLoop text maxChunkSize end
                 (if length chunk > 0 then chunks @ [chunk] else chunks))
      else Some chunks)"

declare splitLoop.simps [code]

definition splitTextIntoChunks :: "nat \<Rightarrow> jsstring \<Rightarrow> jsstring list option" where
  "splitTextIntoChunks maxChunkSize text =
     (if length text \<le> maxChunkSize then Some [text]
      else map_option (filter (\<lambda>chunk. length chunk > 0))
             (splitLoop text maxChunkSize 0 []))"

section \<open>Regular expressions and \<open>String.prototype.replace\<close>\<close>

text \<open>
  Every regular expression of the normalizer is a sequence of quantified one-character
  classes, at most one of them in the capture group \<open>$1\<close>, with an optional leading
  \<open>^\<close> under the \<open>m\<close> flag.  The classes: a literal character, \<open>\d\<close>, \<open>\s\<close>,
  \<open>.\<close> (anything but a line terminator), \<open>[...]\<close> and \<open>[^...]\<close>.
\<close>

datatype cclass = Ch jschar | Digit | Space | Dot | OneOf "jschar list" | NoneOf "jschar list"

fun inClass :: "cclass \<Rightarrow> jschar \<Rightarrow> bool" where
  "inClass (Ch a) c \<longleftrightarrow> c = a"
| "inClass Digit c \<longleftrightarrow> ch CHR ''0'' \<le> c \<and> c \<le> ch CHR ''9''"
| "inClass Space c \<longleftrightarrow> isWhiteSpace c"
| "inClass Dot c \<longleftrightarrow> \<not> isLineTerminator c"
| "inClass (OneOf cs) c \<longleftrightarrow> c \<in> set cs"
| "inClass (NoneOf cs) c \<longleftrightarrow> c \<notin> set cs"

text \<open>
  The quantifiers: none, \<open>+\<close>, \<open>*\<close>, \<open>*?\<close> and \<open>{k,}\<close>.  \<open>counts q n\<close> lists the
  numbers of repetitions the backtracking matcher tries, in its order of preference, when
  \<open>n\<close> characters of the class lie ahead: greedy quantifiers from the longest down, the
  lazy one from the shortest up.
\<close>

datatype quantifier = One | Plus | Star | LazyStar | AtLeast nat

fun counts :: "quantifier \<Rightarrow> nat \<Rightarrow> nat list" where
  "counts One n = (if 1 \<le> n then [1] else [])"
| "counts Plus n = rev [1..<Suc n]"
| "counts Star n = rev [0..<Suc n]"
| "counts LazyStar n = [0..<Suc n]"
| "counts (AtLeast k) n = rev [k..<Suc n]"

text \<open>An item of the sequence; \<open>Group\<close> is an item written inside \<open>( )\<close>.\<close>

datatype item = Item cclass quantifier | Group cclass quantifier

fun itemClass :: "item \<Rightarrow> cclass" where
  "itemClass (Item c q) = c"
| "itemClass (Group c q) = c"

fun itemQuantifier :: "item \<Rightarrow> quantifier" where
  "itemQuantifier (Item c q) = q"
| "itemQuantifier (Group c q) = q"

fun isGroup :: "item \<Rightarrow> bool" where
  "isGroup (Item c q) = False"
| "isGroup (Group c q) = True"

fun firstSome :: "('a \<Rightarrow> 'b option) \<Rightarrow> 'a list \<Rightarrow> 'b option" where
  "firstSome f [] = None"
| "firstSome f (x # xs) = (case f x of Some y \<Rightarrow> Some y | None \<Rightarrow> firstSome f xs)"

text \<open>
  The match of the sequence at the head of \<open>s\<close>: the first choice of repetition counts,
  in backtracking order, under which every item matches.  The result is the length of
  the match and the text of the capture group.
\<close>

primrec matchItems :: "item list \<Rightarrow> jsstring \<Rightarrow> (nat \<times> jsstring) option" where
  "matchItems [] s = Some (0, [])"
| "matchItems (it # its) s =
     firstSome
       (\<lambda>k. map_option (\<lambda>(len, cap). (k + len, if isGroup it then take k s else cap))
              (matchItems its (drop k s)))
       (counts (itemQuantifier it) (length (takeWhile (inClass (itemClass it)) s)))"

record regex =
  lineStart :: bool
  items :: "item list"

text \<open>
  A match at the current position; \<open>prev\<close> is the code unit before it, \<open>None\<close> at the
  start of the string.  \<open>^\<close> with the \<open>m\<close> flag holds at the start of the string and
  after a line terminator.
\<close>

definition matchAt :: "regex \<Rightarrow> jschar option \<Rightarrow> jsstring \<Rightarrow> (nat \<times> jsstring) option" where
  "matchAt re prev s =
     (if lineStart re \<and> \<not> (case prev of None \<Rightarrow> True | Some p \<Rightarrow> isLineTerminator p)
      then None else matchItems (items re) s)"

text \<open>The replacement text: literal pieces and \<open>$1\<close>.\<close>

datatype rpart = Lit jsstring | Group1

fun expand :: "rpart list \<Rightarrow> jsstring \<Rightarrow> jsstring" where
  "expand [] cap = []"
| "expand (Lit l # r) cap = l @ expand r cap"
| "expand (Group1 # r) cap = cap @ expand r cap"

text \<open>
  \<open>s.replace(re, replacement)\<close> for a regular expression with the \<open>g\<close> flag: the
  matches are found from left to right, each search starting where the last match
  ended, one code unit further after an empty match; the text between the matches is
  copied.
\<close>

fun replaceLoop :: "regex \<Rightarrow> rpart list \<Rightarrow> jschar option \<Rightarrow> jsstring \<Rightarrow> jsstring" where
  "replaceLoop re rep prev [] =
     (case matchAt re prev [] of None \<Rightarrow> [] | Some (len, cap) \<Rightarrow> expand rep cap)"
| "replaceLoop re rep prev (c # cs) =
     (case matchAt re prev (c # cs) of
        None \<Rightarrow> c # replaceLoop re rep (Some c) cs
      | Some (len, cap) \<Rightarrow>
          if len = 0 then expand rep cap @ c # replaceLoop re rep (Some c) cs
          else expand rep cap @
               replaceLoop re rep (Some ((c # cs) ! (len - 1))) (drop len (c # cs)))"

definition replace :: "jsstring \<Rightarrow> regex \<Rightarrow> rpart list \<Rightarrow> jsstring" where
  "replace s re rep = replaceLoop re rep None s"

text \<open>A quantifier that asks for at least one repetition.\<close>

fun atLeastOne :: "quantifier \<Rightarrow> bool" where
  "atLeastOne One = True"
| "atLeastOne Plus = True"
| "atLeastOne (AtLeast k) = (0 < k)"
| "atLeastOne q = False"

text \<open>
  The least number of repetitions that a quantifier allows, and the least length of the
  part of a match that lies outside the capture group.
\<close>

fun minCount :: "quantifier \<Rightarrow> nat" where
  "minCount One = 1"
| "minCount Plus = 1"
| "minCount Star = 0"
| "minCount LazyStar = 0"
| "minCount (AtLeast k) = k"

fun minLength :: "item list \<Rightarrow> nat" where
  "minLength [] = 0"
| "minLength (it # its) =
     (if isGroup it then 0 else minCount (itemQuantifier it)) + minLength its"

section \<open>The text normalizer: \<open>normalizeTextForTTS\<close>\<close>

record text_processing =
  clean_markdown :: bool
  remove_footnotes :: bool
  normalize_whitespace :: bool
  sentence_splitting :: bool
  paragraph_splitting :: bool

text \<open>The \<open>text_processing\<close> part of \<open>ConfigManager.globalSettings\<close>.\<close>

definition globalSettings :: text_processing where
  "globalSettings =
     \<lparr>clean_markdown = True, remove_footnotes = True, normalize_whitespace = True,
      sentence_splitting = True, paragraph_splitting = False\<rparr>"

text \<open>\<^verbatim>\<open>/\[\d+\]/g\<close>\<close>

definition reFootnoteBracket :: regex where
  "reFootnoteBracket =
     \<lparr>lineStart = False,
      items = [Item (Ch (ch CHR ''['')) One, Item Digit Plus, Item (Ch (ch CHR '']'')) One]\<rparr>"

text \<open>\<^verbatim>\<open>/\(\d+\)/g\<close>\<close>

definition reFootnoteParen :: regex where
  "reFootnoteParen =
     \<lparr>lineStart = False,
      items = [Item (Ch (ch CHR ''('')) One, Item Digit Plus, Item (Ch (ch CHR '')'')) One]\<rparr>"

text \<open>\<^verbatim>\<open>/\s+/g\<close>\<close>

definition reWhitespace :: regex where
  "reWhitespace = \<lparr>lineStart = False, items = [Item Space Plus]\<rparr>"

text \<open>\<^verbatim>\<open>/\*\*(.*?)\*\*/g\<close>\<close>

definition reBold :: regex where
  "reBold =
     \<lparr>lineStart = False,
      items = [Item (Ch (ch CHR ''*'')) One, Item (Ch (ch CHR ''*'')) One, Group Dot LazyStar,
               Item (Ch (ch CHR ''*'')) One, Item (Ch (ch CHR ''*'')) One]\<rparr>"

text \<open>\<^verbatim>\<open>/\*(.*?)\*/g\<close>\<close>

definition reItalic :: regex where
  "reItalic =
     \<lparr>lineStart = False,
      items = [Item (Ch (ch CHR ''*'')) One, Group Dot LazyStar, Item (Ch (ch CHR ''*'')) One]\<rparr>"

text \<open>\<^verbatim>\<open>/\[([^\]]+)\]\([^)]+\)/g\<close>\<close>

definition reLink :: regex where
  "reLink =
     \<lparr>lineStart = False,
      items = [Item (Ch (ch CHR ''['')) One, Group (NoneOf [ch CHR '']'']) Plus,
               Item (Ch (ch CHR '']'')) One, Item (Ch (ch CHR ''('')) One,
               Item (NoneOf [ch CHR '')'']) Plus, Item (Ch (ch CHR '')'')) One]\<rparr>"

text \<open>\<^verbatim>\<open>/^\s*[-*+]\s+/gm\<close>\<close>

definition reListMarker :: regex where
  "reListMarker =
     \<lparr>lineStart = True,
      items = [Item Space Star, Item (OneOf [ch CHR ''-'', ch CHR ''*'', ch CHR ''+'']) One,
               Item Space Plus]\<rparr>"

text \<open>\<^verbatim>\<open>/\n{3,}/g\<close>\<close>

definition reBlankLines :: regex where
  "reBlankLines = \<lparr>lineStart = False, items = [Item (Ch (ch CHR 0x0A)) (AtLeast 3)]\<rparr>"

text \<open>\<^verbatim>\<open>/([.!?])\s*\n\s*/g\<close>\<close>

definition reSentenceBreak :: regex where
  "reSentenceBreak =
     \<lparr>lineStart = False,
      items = [Group (OneOf [ch CHR ''.'', ch CHR ''!'', ch CHR ''?'']) One, Item Space Star,
               Item (Ch (ch CHR 0x0A)) One, Item Space Star]\<rparr>"

text \<open>\<^verbatim>\<open>/\n\s*\n/g\<close>\<close>

definition reParagraphBreak :: regex where
  "reParagraphBreak =
     \<lparr>lineStart = False,
      items = [Item (Ch (ch CHR 0x0A)) One, Item Space Star, Item (Ch (ch CHR 0x0A)) One]\<rparr>"

text \<open>
  The source reads the settings from \<open>ConfigManager.getGlobalSettings()\<close>; here they are
  an argument.
\<close>

definition normalizeTextForTTS :: "text_processing \<Rightarrow> jsstring \<Rightarrow> jsstring" where
  "normalizeTextForTTS settings text =
     (if \<not> clean_markdown settings then text
      else
        let normalized = text;
            normalized =
              (if remove_footnotes settings
               then replace (replace normalized reFootnoteBracket []) reFootnoteParen []
               else normalized);
            normalized =
              (if normalize_whitespace settings
               then replace normalized reWhitespace [Lit (js '' '')]
               else normalized);
            normalized = replace normalized reBold [Group1];
            normalized = replace normalized reItalic [Group1];
            normalized = replace normalized reLink [Group1];
            normalized = replace normalized reListMarker [];
            normalized = replace normalized reBlankLines [Lit [ch CHR 0x0A, ch CHR 0x0A]];
            normalized = replace normalized reSentenceBreak [Group1, Lit (js '' '')];
            normalized = replace normalized reParagraphBreak [Lit (js ''. '')]
        in trim normalized)"

subsection \<open>Texts without markup\<close>

text \<open>
  White space occurs in \<open>s\<close> only as single space characters: every white-space code
  unit is U+0020 and is not followed by another.
\<close>

fun singleSpaced :: "jsstring \<Rightarrow> bool" where
  "singleSpaced [] \<longleftrightarrow> True"
| "singleSpaced [c] \<longleftrightarrow> (if isWhiteSpace c then c = ch CHR '' '' else True)"
| "singleSpaced (c # d # s) \<longleftrightarrow>
     (if isWhiteSpace c then c = ch CHR '' '' \<and> \<not> isWhiteSpace d else True) \<and>
     singleSpaced (d # s)"

text \<open>The text begins with \<open>-\<close>, \<open>*\<close> or \<open>+\<close> and white space after it.\<close>

fun startsWithListMarker :: "jsstring \<Rightarrow> bool" where
  "startsWithListMarker (c # w # s) \<longleftrightarrow>
     c \<in> set [ch CHR ''-'', ch CHR ''*'', ch CHR ''+''] \<and> isWhiteSpace w"
| "startsWithListMarker s \<longleftrightarrow> False"

text \<open>
  The regular expression occurs in the text: it matches at some position from the
  current one on, the end of the text included; \<open>prev\<close> is the code unit before the
  current position.
\<close>

fun occursFrom :: "regex \<Rightarrow> jschar option \<Rightarrow> jsstring \<Rightarrow> bool" where
  "occursFrom re prev [] \<longleftrightarrow> matchAt re prev [] \<noteq> None"
| "occursFrom re prev (c # cs) \<longleftrightarrow> matchAt re prev (c # cs) \<noteq> None \<or> occursFrom re (Some c) cs"

definition occurs :: "regex \<Rightarrow> jsstring \<Rightarrow> bool" where
  "occurs re s = occursFrom re None s"

text \<open>
  A text is free of the patterns of the normalizer under given settings: the regular
  expressions that the settings bring into play occur nowhere in it, where white space
  is normalized its white space is single spaces, and it has no white space at either
  end.  Parentheses, square brackets and asterisks that form none of the patterns are
  allowed.
\<close>

definition patternFree :: "text_processing \<Rightarrow> jsstring \<Rightarrow> bool" where
  "patternFree settings t \<longleftrightarrow>
     (if remove_footnotes settings
      then \<not> occurs reFootnoteBracket t \<and> \<not> occurs reFootnoteParen t else True) \<and>
     (if normalize_whitespace settings then singleSpaced t else True) \<and>
     \<not> occurs reBold t \<and> \<not> occurs reItalic t \<and> \<not> occurs reLink t \<and>
     \<not> occurs reListMarker t \<and> \<not> occurs reBlankLines t \<and>
     \<not> occurs reSentenceBreak t \<and> \<not> occurs reParagraphBreak t \<and>
     trim t = t"

text \<open>
  A text without markup characters: no asterisk, no opening square bracket, no opening
  parenthesis where footnotes are removed, and no list marker after the white space at
  its start.  Its white space is arbitrary: runs of any length, line terminators, white
  space at the ends.
\<close>

definition markupFree :: "text_processing \<Rightarrow> jsstring \<Rightarrow> bool" where
  "markupFree settings t \<longleftrightarrow>
     list_all (\<lambda>c. c \<noteq> ch CHR ''*'' \<and> c \<noteq> ch CHR ''['') t \<and>
     (if remove_footnotes settings then list_all (\<lambda>c. c \<noteq> ch CHR ''('') t else True) \<and>
     \<not> startsWithListMarker (dropWhile isWhiteSpace t)"

text \<open>The same of a text that has no line terminator either.\<close>

definition clearOf :: "text_processing \<Rightarrow> jsstring \<Rightarrow> bool" where
  "clearOf settings v \<longleftrightarrow>
     (\<forall>c \<in> set v. c \<noteq> ch CHR ''*'' \<and> c \<noteq> ch CHR ''['' \<and> \<not> isLineTerminator c) \<and>
     (remove_footnotes settings \<longrightarrow> (\<forall>c \<in> set v. c \<noteq> ch CHR ''('')) \<and>
     \<not> startsWithListMarker (dropWhile isWhiteSpace v)"

section \<open>Chapter resolution: \<open>findChapter\<close>\<close>

text \<open>
  JavaScript numbers are modelled as exact rationals: there is no \<open>NaN\<close> (where it
  matters it is \<open>None\<close>), no infinity and no rounding to a double.
\<close>

type_synonym number = rat

record BookMetadata =
  title :: jsstring
  author :: jsstring
  totalChapters :: number

record Chapter =
  chapter_id :: jsstring
  title :: jsstring
  order :: number
  filename :: jsstring

record TableOfContents =
  book :: BookMetadata
  chapters :: "Chapter list"

text \<open>
  \<open>parseInt(string)\<close> without a radix, after ECMAScript: leading white space is
  skipped, then an optional sign, then an optional \<open>0x\<close> or \<open>0X\<close> that selects radix 16
  (radix 10 otherwise); the value is that of the longest run of digits of the radix that
  follows, whatever comes after it, and \<open>NaN\<close> (here \<open>None\<close>) when that run is empty.
\<close>

definition digitValue :: "jschar \<Rightarrow> nat option" where
  "digitValue c =
     (if ch CHR ''0'' \<le> c \<and> c \<le> ch CHR ''9'' then Some (unat c - 48)
      else if ch CHR ''a'' \<le> c \<and> c \<le> ch CHR ''z'' then Some (unat c - 87)
      else if ch CHR ''A'' \<le> c \<and> c \<le> ch CHR ''Z'' then Some (unat c - 55)
      else None)"

definition isRadixDigit :: "nat \<Rightarrow> jschar \<Rightarrow> bool" where
  "isRadixDigit R c = (case digitValue c of Some d \<Rightarrow> d < R | None \<Rightarrow> False)"

definition digitsValue :: "nat \<Rightarrow> jsstring \<Rightarrow> nat" where
  "digitsValue R Z = foldl (\<lambda>acc c. acc * R + (case digitValue c of Some d \<Rightarrow> d | None \<Rightarrow> 0)) 0 Z"

definition parseInt :: "jsstring \<Rightarrow> number option" where
  "parseInt string =
     (let S = dropWhile isWhiteSpace string;
          sign = (if take 1 S = js ''-'' then - 1 else 1 :: int);
          S = (if take 1 S = js ''+'' \<or> take 1 S = js ''-'' then drop 1 S else S);
          stripPrefix = (take 2 S = js ''0x'' \<or> take 2 S = js ''0X'');
          R = (if stripPrefix then 16 else 10);
          S = (if stripPrefix then drop 2 S else S);
          Z = takeWhile (isRadixDigit R) S
      in if Z = [] then None else Some (of_int (sign * int (digitsValue R Z))))"

text \<open>
  \<open>s.includes(sub)\<close>: \<open>sub\<close> occurs in \<open>s\<close> as a run of consecutive code units.
  (\<open>includes\<close> is a keyword of Isabelle, hence the longer name.)
\<close>

primrec includesStr :: "jsstring \<Rightarrow> jsstring \<Rightarrow> bool" where
  "includesStr [] sub \<longleftrightarrow> sub = []"
| "includesStr (c # cs) sub \<longleftrightarrow> take (length sub) (c # cs) = sub \<or> includesStr cs sub"

text \<open>
  \<open>toLowerCase\<close> is the case mapping of the JavaScript runtime, a table of Unicode that
  is no part of the repository: the functions that use it take it as the argument
  \<open>toLowerCase\<close>.  \<open>asciiLowerCase\<close> is that mapping on texts of ASCII characters.
\<close>

definition asciiLowerCase :: "jsstring \<Rightarrow> jsstring" where
  "asciiLowerCase s = map (\<lambda>c. if ch CHR ''A'' \<le> c \<and> c \<le> ch CHR ''Z'' then c + 32 else c) s"

text \<open>
  \<open>findChapter\<close> of \<open>ChapterAudioGenerator\<close>.  The source loads the table of contents
  from \<open>toc.yml\<close> first; here it is an argument.  \<open>null\<close> is \<open>None\<close>.
\<close>

definition findChapter ::
  "(jsstring \<Rightarrow> jsstring) \<Rightarrow> TableOfContents \<Rightarrow> jsstring \<Rightarrow> Chapter option" where
  "findChapter toLowerCase toc identifier =
     (case parseInt identifier of
        Some chapterNum \<Rightarrow> find (\<lambda>c. order c = chapterNum) (chapters toc)
      | None \<Rightarrow>
          (let lowerIdentifier = toLowerCase identifier
           in find (\<lambda>c. includesStr (toLowerCase (title c)) lowerIdentifier) (chapters toc)))"

text \<open>A table of contents, for examples.\<close>

definition exampleToc :: TableOfContents where
  "exampleToc =
     \<lparr>book = \<lparr>BookMetadata.title = js ''Mythos'', author = js ''Stephen Fry'',
              totalChapters = 4\<rparr>,
      chapters =
        [\<lparr>chapter_id = js ''ch-1'', title = js ''3 little pigs'', order = 1,
          filename = js ''01.md''\<rparr>,
         \<lparr>chapter_id = js ''ch-2'', title = js ''Out of CHAOS'', order = 2,
          filename = js ''02.md''\<rparr>,
         \<lparr>chapter_id = js ''ch-3'', title = js ''Chaos again'', order = 3,
          filename = js ''03.md''\<rparr>,
         \<lparr>chapter_id = js ''ch-10'', title = js ''The Titans'', order = 10,
          filename = js ''10.md''\<rparr>]\<rparr>"

section \<open>The provider registry and \<open>getEffectiveOptions\<close>\<close>

datatype TTSProvider = google | openai | elevenlabs

record ProcessingLimits =
  max_text_length :: number
  max_chunk_size :: number
  rate_limit_delay :: number
  max_concurrent_requests :: number
  retry_attempts :: number
  retry_delay :: number

record DefaultSettings =
  model :: jsstring
  voice :: jsstring
  format :: jsstring

text \<open>Of \<open>TTSProviderConfig\<close>, the parts that the functions modelled here read.\<close>

record TTSProviderConfig =
  processing :: ProcessingLimits
  default_settings :: DefaultSettings

definition googleTTSConfig :: TTSProviderConfig where
  "googleTTSConfig =
     \<lparr>processing =
        \<lparr>max_text_length = 5000, max_chunk_size = 3000,
         ProcessingLimits.rate_limit_delay = 10000, max_concurrent_requests = 1,
         retry_attempts = 5, retry_delay = 30000\<rparr>,
      default_settings =
        \<lparr>DefaultSettings.model = js ''gemini-2.5-flash-preview-tts'', voice = js ''Kore'',
         format = js ''audio/wav''\<rparr>\<rparr>"

definition openaiTTSConfig :: TTSProviderConfig where
  "openaiTTSConfig =
     \<lparr>processing =
        \<lparr>max_text_length = 4096, max_chunk_size = 3000,
         ProcessingLimits.rate_limit_delay = 1000, max_concurrent_requests = 5,
         retry_attempts = 3, retry_delay = 2000\<rparr>,
      default_settings =
        \<lparr>DefaultSettings.model = js ''tts-1'', voice = js ''alloy'', format = js ''mp3''\<rparr>\<rparr>"

text \<open>\<open>ConfigManager.providers\<close>: the two registered providers.\<close>

definition providers :: "TTSProvider \<rightharpoonup> TTSProviderConfig" where
  "providers = [google \<mapsto> googleTTSConfig, openai \<mapsto> openaiTTSConfig]"

datatype config_error = ProviderNotFound TTSProvider

definition getProviderConfig :: "TTSProvider \<Rightarrow> config_error + TTSProviderConfig" where
  "getProviderConfig provider =
     (case providers provider of
        None \<Rightarrow> Inl (ProviderNotFound provider)
      | Some config \<Rightarrow> Inr config)"

text \<open>An optional field of \<open>ChapterAudioOptions\<close> is \<open>None\<close> when it is \<open>undefined\<close>.\<close>

record ChapterAudioOptions =
  provider :: "TTSProvider option"
  voice :: "jsstring option"
  model :: "jsstring option"
  format :: "jsstring option"
  force_regenerate :: "bool option"
  chunk_size :: "number option"
  rate_limit_delay :: "number option"

text \<open>\<open>Required<ChapterAudioOptions>\<close>\<close>

record RequiredChapterAudioOptions =
  provider :: TTSProvider
  voice :: jsstring
  model :: jsstring
  format :: jsstring
  force_regenerate :: bool
  chunk_size :: number
  rate_limit_delay :: number

text \<open>
  \<open>a || b\<close> is \<open>a\<close> when \<open>a\<close> is truthy and \<open>b\<close> otherwise.  \<open>undefined\<close>, the empty
  string, the number 0 and \<open>false\<close> are falsy; a provider name is a non-empty string.
\<close>

definition orProvider :: "TTSProvider option \<Rightarrow> TTSProvider \<Rightarrow> TTSProvider" where
  "orProvider a b = (case a of None \<Rightarrow> b | Some p \<Rightarrow> p)"

definition orString :: "jsstring option \<Rightarrow> jsstring \<Rightarrow> jsstring" where
  "orString a b = (case a of None \<Rightarrow> b | Some s \<Rightarrow> if s = [] then b else s)"

definition orNumber :: "number option \<Rightarrow> number \<Rightarrow> number" where
  "orNumber a b = (case a of None \<Rightarrow> b | Some n \<Rightarrow> if n = 0 then b else n)"

definition orBool :: "bool option \<Rightarrow> bool \<Rightarrow> bool" where
  "orBool a b = (case a of None \<Rightarrow> b | Some f \<Rightarrow> if f then f else b)"

definition getEffectiveOptions ::
  "TTSProvider \<Rightarrow> ChapterAudioOptions \<Rightarrow> config_error + RequiredChapterAudioOptions" where
  "getEffectiveOptions provider_arg options =
     (case getProviderConfig provider_arg of
        Inl e \<Rightarrow> Inl e
      | Inr config \<Rightarrow>
          Inr \<lparr>provider = orProvider (ChapterAudioOptions.provider options) provider_arg,
               voice = orString (ChapterAudioOptions.voice options)
                         (DefaultSettings.voice (default_settings config)),
               model = orString (ChapterAudioOptions.model options)
                         (DefaultSettings.model (default_settings config)),
               format = orString (ChapterAudioOptions.format options)
                          (DefaultSettings.format (default_settings config)),
               force_regenerate = orBool (ChapterAudioOptions.force_regenerate options) False,
               chunk_size = orNumber (ChapterAudioOptions.chunk_size options)
                              (max_chunk_size (processing config)),
               rate_limit_delay = orNumber (ChapterAudioOptions.rate_limit_delay options)
                                    (ProcessingLimits.rate_limit_delay (processing config))\<rparr>)"

section \<open>The WAV container: \<open>createWavFile\<close>\<close>

text \<open>
  A Node.js \<open>Buffer\<close> is a list of bytes.  \<open>Buffer.alloc(n)\<close> is \<open>n\<close> zero bytes;
  \<open>buf.write(string, offset)\<close>, here \<open>writeAscii\<close>, stores the bytes of an ASCII string,
  as many as fit.
\<close>

type_synonym byte = "8 word"

definition alloc :: "nat \<Rightarrow> byte list" where
  "alloc n = replicate n 0"

fun writeAscii :: "byte list \<Rightarrow> string \<Rightarrow> nat \<Rightarrow> byte list" where
  "writeAscii buf [] offset = buf"
| "writeAscii buf (c # cs) offset = writeAscii (buf[offset := of_nat (of_char c)]) cs (Suc offset)"

text \<open>
  \<open>buf.writeUInt32LE(value, offset)\<close> and \<open>buf.writeUInt16LE(value, offset)\<close> of Node.js
  check the value against the range of the field, then the offset against the buffer, and
  throw a \<open>RangeError\<close> when a check fails; then they store the value byte by byte, the
  least significant byte first.  The values written by \<open>createWavFile\<close> are lengths and
  sample rates, natural numbers.
\<close>

datatype buffer_error = ValueOutOfRange nat | OffsetOutOfRange nat

definition writeUInt32LE :: "byte list \<Rightarrow> nat \<Rightarrow> nat \<Rightarrow> buffer_error + byte list" where
  "writeUInt32LE buf val offset =
     (if val > 4294967295 then Inl (ValueOutOfRange val)
      else if length buf < offset + 4 then Inl (OffsetOutOfRange offset)
      else Inr (buf[offset := of_nat val,
                    offset + 1 := of_nat (val div 256),
                    offset + 2 := of_nat (val div 65536),
                    offset + 3 := of_nat (val div 16777216)]))"

definition writeUInt16LE :: "byte list \<Rightarrow> nat \<Rightarrow> nat \<Rightarrow> buffer_error + byte list" where
  "writeUInt16LE buf val offset =
     (if val > 65535 then Inl (ValueOutOfRange val)
      else if length buf < offset + 2 then Inl (OffsetOutOfRange offset)
      else Inr (buf[offset := of_nat val, offset + 1 := of_nat (val div 256)]))"

text \<open>The matching reads, by which the fields of a header are stated.\<close>

definition readUInt32LE :: "byte list \<Rightarrow> nat \<Rightarrow> nat" where
  "readUInt32LE buf offset =
     unat (buf ! offset) + 256 * unat (buf ! (offset + 1)) +
     65536 * unat (buf ! (offset + 2)) + 16777216 * unat (buf ! (offset + 3))"

definition readUInt16LE :: "byte list \<Rightarrow> nat \<Rightarrow> nat" where
  "readUInt16LE buf offset = unat (buf ! offset) + 256 * unat (buf ! (offset + 1))"

definition bytesOf :: "string \<Rightarrow> byte list" where
  "bytesOf s = map (\<lambda>c. of_nat (of_char c)) s"

text \<open>
  \<open>createWavFile\<close>; the result is \<open>wavBuffer\<close>, the content that the source writes to
  \<open>outputPath\<close>, or the error thrown on the way (\<open>Inl\<close>), which ends the function.
\<close>

definition createWavFile :: "byte list \<Rightarrow> nat \<Rightarrow> buffer_error + byte list" where
  "createWavFile pcmBuffer sampleRate =
     (let dataLength = length pcmBuffer;
          header = alloc 44;
          header = writeAscii header ''RIFF'' 0
      in (case writeUInt32LE header (36 + dataLength) 4 of Inl e \<Rightarrow> Inl e | Inr header \<Rightarrow>
         (let header = writeAscii header ''WAVE'' 8;
              header = writeAscii header ''fmt '' 12
          in (case writeUInt32LE header 16 16 of Inl e \<Rightarrow> Inl e | Inr header \<Rightarrow>
             (case writeUInt16LE header 1 20 of Inl e \<Rightarrow> Inl e | Inr header \<Rightarrow>
             (case writeUInt16LE header 1 22 of Inl e \<Rightarrow> Inl e | Inr header \<Rightarrow>
             (case writeUInt32LE header sampleRate 24 of Inl e \<Rightarrow> Inl e | Inr header \<Rightarrow>
             (case writeUInt32LE header (sampleRate * 2) 28 of Inl e \<Rightarrow> Inl e | Inr header \<Rightarrow>
             (case writeUInt16LE header 2 32 of Inl e \<Rightarrow> Inl e | Inr header \<Rightarrow>
             (case writeUInt16LE header 16 34 of Inl e \<Rightarrow> Inl e | Inr header \<Rightarrow>
             (let header = writeAscii header ''data'' 36
              in (case writeUInt32LE header dataLength 40 of Inl e \<Rightarrow> Inl e | Inr header \<Rightarrow>
                 Inr (header @ pcmBuffer)))))))))))))"

section \<open>Retry and backoff: \<open>generateSingleAudio\<close>\<close>

text \<open>
  What the \<open>catch\<close> clause reads of the error it catches: \<open>error.response.status\<close> and
  \<open>error.message\<close>, either of which may be absent.
\<close>

record TTSError =
  status :: "number option"
  message :: "jsstring option"

definition isRateLimit :: "TTSError \<Rightarrow> bool" where
  "isRateLimit error \<longleftrightarrow>
     status error = Some 429 \<or>
     (case message error of None \<Rightarrow> False | Some m \<Rightarrow> includesStr m (js ''429'')) \<or>
     (case message error of None \<Rightarrow> False | Some m \<Rightarrow> includesStr m (js ''Too Many Requests''))"

text \<open>
  One call of the provider (\<open>generateAudioWithGoogle\<close>, \<open>generateAudioWithOpenAI\<close>, or
  the \<open>default\<close> branch that throws) either returns or throws.  The provider is outside
  the program: \<open>attempt k\<close> is the outcome of call number \<open>k\<close>, counted from 0.
\<close>

datatype outcome = Returned | Threw TTSError

text \<open>
  The result of \<open>generateSingleAudio\<close>: the delays it passed to \<open>this.delay\<close>, in
  order, and the error it threw, \<open>None\<close> when it returned.
\<close>

record retry_result =
  waits :: "number list"
  thrown :: "TTSError option"

text \<open>
  The loop \<open>while (retries <= maxRetries)\<close>.  Call number \<open>retries\<close> is made; a failure
  increments \<open>retries\<close>, rethrows when \<open>retries > maxRetries\<close> and otherwise waits
  \<open>baseDelay * Math.pow(2, retries - 1)\<close>.  Writing the log line is left out.
\<close>

function retryLoop ::
  "ProcessingLimits \<Rightarrow> (nat \<Rightarrow> outcome) \<Rightarrow> nat \<Rightarrow> number list \<Rightarrow> retry_result" where
  "retryLoop limits attempt retries ws =
     (let maxRetries = retry_attempts limits in
      if of_nat retries \<le> maxRetries
      then (case attempt retries of
              Returned \<Rightarrow> \<lparr>waits = ws, thrown = None\<rparr>
            | Threw error \<Rightarrow>
                (let retries = retries + 1 in
                 if of_nat retries > maxRetries then \<lparr>waits = ws, thrown = Some error\<rparr>
                 else
                   (let baseDelay = (if isRateLimit error then retry_delay limits
                                     else retry_delay limits / 3);
                        backoffDelay = baseDelay * 2 ^ (retries - 1)
                    in retryLoop limits attempt retries (ws @ [backoffDelay]))))
      else \<lparr>waits = ws, thrown = None\<rparr>)"
  by pat_completeness auto
termination
proof (relation "measure (\<lambda>(limits, attempt, retries, ws).
                   nat \<lfloor>retry_attempts limits\<rfloor> + 1 - retries)", goal_cases)
  case 1
  show ?case by simp
next
  case (2 limits attempt retries ws maxRetries error retries' baseDelay backoffDelay)
  from 2(1,4,5) have "rat_of_int (int retries + 1) \<le> retry_attempts limits"
    by simp
  then have "int retries + 1 \<le> \<lfloor>retry_attempts limits\<rfloor>"
    by (simp only: le_floor_iff)
  then have "nat \<lfloor>retry_attempts limits\<rfloor> + 1 - (retries + 1)
             < nat \<lfloor>retry_attempts limits\<rfloor> + 1 - retries"
    by linarith
  with 2(4) show ?case by simp
qed

definition generateSingleAudio :: "ProcessingLimits \<Rightarrow> (nat \<Rightarrow> outcome) \<Rightarrow> retry_result" where
  "generateSingleAudio limits attempt = retryLoop limits attempt 0 []"

section \<open>Multi-chapter generation: \<open>generateMultipleChapters\<close>\<close>

text \<open>
  What \<open>generateChapterAudio\<close> of \<open>ChapterAudioGenerator\<close> meets outside the program, for
  one book directory: the error that \<open>validateBook\<close> throws, if any; the table of
  contents in \<open>toc.yml\<close> (the source overwrites it for the run of the generator and
  restores it afterwards); whether the content file of a chapter exists; and the error
  that \<open>UnifiedAudioGenerator.generateBookAudio\<close> throws on the single-chapter table of
  contents, \<open>None\<close> when it completes and has written the audio file of the chapter.
  \<open>'e\<close> is the type of the errors thrown by these collaborators.
\<close>

record 'e book =
  invalid :: "'e option"
  toc :: TableOfContents
  contentExists :: "jsstring \<Rightarrow> bool"
  generateBookAudio :: "Chapter \<Rightarrow> 'e option"

datatype 'e chapter_error = ContentNotFound jsstring | Raised 'e

text \<open>
  The lines written to the console, by what they report: the batch header, the
  \<open>[i/n] Processing chapter\<close> line, \<open>Chapter not found\<close>, \<open>Generating audio for\<close>,
  \<open>Audio generated successfully\<close>, \<open>Waiting 3 seconds before next chapter\<close> (followed
  by the wait), \<open>Failed to generate audio for chapter\<close> with the error, and
  \<open>Batch processing completed\<close>.  The book and provider banner of each chapter and the
  listing of the generated file are left out.
\<close>

datatype 'e event =
    BatchStarted nat
  | ProcessingChapter nat nat jsstring
  | ChapterNotFound jsstring
  | GeneratingAudioFor Chapter
  | AudioGenerated Chapter
  | Waiting number
  | FailedToGenerate jsstring "'e chapter_error"
  | BatchCompleted

text \<open>The state that a run changes: the console and the audio files written, in order.\<close>

record 'e world =
  console :: "'e event list"
  audioFiles :: "Chapter list"

definition consoleLog :: "'e event \<Rightarrow> 'e world \<Rightarrow> 'e world" where
  "consoleLog ev w = w\<lparr>console := console w @ [ev]\<rparr>"

text \<open>
  \<open>generateChapterAudio(chapterIdentifier)\<close>: the error it throws, \<open>None\<close> when it
  returns, and the new state.  An identifier that resolves to no chapter is reported and
  the function returns.
\<close>

definition generateChapterAudio ::
  "(jsstring \<Rightarrow> jsstring) \<Rightarrow> 'e book \<Rightarrow> jsstring \<Rightarrow> 'e world
   \<Rightarrow> 'e chapter_error option \<times> 'e world" where
  "generateChapterAudio toLowerCase bk chapterIdentifier w =
     (case invalid bk of
        Some e \<Rightarrow> (Some (Raised e), w)
      | None \<Rightarrow>
          (case findChapter toLowerCase (toc bk) chapterIdentifier of
             None \<Rightarrow> (None, consoleLog (ChapterNotFound chapterIdentifier) w)
           | Some chapter \<Rightarrow>
               (let w = consoleLog (GeneratingAudioFor chapter) w in
                if \<not> contentExists bk (filename chapter)
                then (Some (ContentNotFound (filename chapter)), w)
                else (case generateBookAudio bk chapter of
                        Some e \<Rightarrow> (Some (Raised e), w)
                      | None \<Rightarrow>
                          (None, consoleLog (AudioGenerated chapter)
                                   (w\<lparr>audioFiles := audioFiles w @ [chapter]\<rparr>))))))"

text \<open>
  The loop \<open>for (let i = 0; i < chapterIdentifiers.length; i++)\<close>; \<open>n\<close> is
  \<open>chapterIdentifiers.length\<close> and the list holds the identifiers from index \<open>i\<close> on.
\<close>

fun chaptersLoop ::
  "(jsstring \<Rightarrow> jsstring) \<Rightarrow> 'e book \<Rightarrow> nat \<Rightarrow> nat \<Rightarrow> jsstring list \<Rightarrow> 'e world \<Rightarrow> 'e world" where
  "chaptersLoop toLowerCase bk n i [] w = w"
| "chaptersLoop toLowerCase bk n i (identifier # rest) w =
     (let w = consoleLog (ProcessingChapter (i + 1) n identifier) w;
          (thrown, w) = generateChapterAudio toLowerCase bk identifier w;
          w = (case thrown of
                 None \<Rightarrow> if i < n - 1 then consoleLog (Waiting 3000) w else w
               | Some error \<Rightarrow> consoleLog (FailedToGenerate identifier error) w)
      in chaptersLoop toLowerCase bk n (i + 1) rest w)"

text \<open>\<open>generateMultipleChapters\<close> returns nothing and throws nothing.\<close>

definition generateMultipleChapters ::
  "(jsstring \<Rightarrow> jsstring) \<Rightarrow> 'e book \<Rightarrow> jsstring list \<Rightarrow> 'e world \<Rightarrow> 'e world" where
  "generateMultipleChapters toLowerCase bk chapterIdentifiers w =
     (let n = length chapterIdentifiers;
          w = consoleLog (BatchStarted n) w;
          w = chaptersLoop toLowerCase bk n 0 chapterIdentifiers w
      in consoleLog BatchCompleted w)"

text \<open>
  A book for examples: the table of contents \<open>exampleToc\<close>, every content file in
  place, and a generator that fails on chapter 2 with a rate-limit error.
\<close>

definition exampleBook :: "TTSError book" where
  "exampleBook =
     \<lparr>invalid = None, toc = exampleToc, contentExists = (\<lambda>file. True),
      generateBookAudio =
        (\<lambda>c. if order c = 2 then Some \<lparr>status = Some 429, message = None\<rparr> else None)\<rparr>"

section \<open>Properties of the chunker\<close>

lemma chunkEnd_gt: "0 < m \<Longrightarrow> start < chunkEnd text m start"
  by (auto simp: chunkEnd_def Let_def)

lemma slice_drop: "a \<le> b \<Longrightarrow> slice s a b @ drop b s = drop a s"
proof -
  assume "a \<le> b"
  then have "drop b s = drop (b - a) (drop a s)" by simp
  then show ?thesis unfolding slice_def by (metis append_take_drop_id)
qed

text \<open>
  With a positive chunk size the loop returns, and what it appends to \<open>chunks\<close> are the
  trimmed, non-empty members of a sequence of consecutive slices that make up the rest of
  the text from \<open>start\<close> on.
\<close>

lemma splitLoop_partition:
  assumes "0 < m"
  shows "\<exists>ps. concat ps = drop start text \<and>
           splitLoop text m start chunks =
             Some (chunks @ filter (\<lambda>c. c \<noteq> []) (map trim ps))"
proof (induction "length text - start" arbitrary: start chunks rule: less_induct)
  case less
  show ?case
  proof (cases "start < length text")
    case False
    then have "splitLoop text m start chunks = Some chunks"
      by (subst splitLoop.simps) simp
    moreover from False have "concat [] = drop start text" by simp
    ultimately show ?thesis by (intro exI [of _ "[]"]) simp
  next
    case True
    define e where "e = chunkEnd text m start"
    define c where "c = trim (slice text start e)"
    define chunks' where "chunks' = (if length c > 0 then chunks @ [c] else chunks)"
    have gt: "start < e" unfolding e_def using assms by (rule chunkEnd_gt)
    with True have "length text - e < length text - start" by arith
    from less [OF this, of chunks'] obtain ps where
      ps: "concat ps = drop e text"
        "splitLoop text m e chunks' = Some (chunks' @ filter (\<lambda>c. c \<noteq> []) (map trim ps))"
      by blast
    have step: "splitLoop text m start chunks = splitLoop text m e chunks'"
      using True by (subst splitLoop.simps) (simp add: e_def c_def chunks'_def Let_def)
    have "concat (slice text start e # ps) = drop start text"
      using ps(1) gt by (simp add: slice_drop)
    moreover have "splitLoop text m start chunks =
        Some (chunks @ filter (\<lambda>c. c \<noteq> []) (map trim (slice text start e # ps)))"
      using step ps(2) by (simp add: chunks'_def c_def)
    ultimately show ?thesis by blast
  qed
qed

text \<open>
  C1, as the code has it.  For every text \<open>t\<close> and every chunk size \<open>m > 0\<close> the chunker
  returns.  A text of at most \<open>m\<close> code units comes back verbatim as the only chunk.  A
  longer text is cut into consecutive slices \<open>ps\<close> whose concatenation is \<open>t\<close>, and the
  chunks are these slices, in order, each trimmed, the ones that are empty after trimming
  left out: joining the chunks reproduces \<open>t\<close> up to white space at the cut points, and
  nothing of \<open>t\<close> is skipped.  No chunk is empty unless \<open>t\<close> itself is empty.
\<close>

theorem splitTextIntoChunks_partition:
  assumes "0 < m"
  shows "\<exists>chunks ps. splitTextIntoChunks m t = Some chunks \<and> concat ps = t \<and>
           (if length t \<le> m then chunks = [t]
            else chunks = filter (\<lambda>c. c \<noteq> []) (map trim ps)) \<and>
           (t \<noteq> [] \<longrightarrow> [] \<notin> set chunks)"
proof (cases "length t \<le> m")
  case True
  then have "splitTextIntoChunks m t = Some [t]" by (simp add: splitTextIntoChunks_def)
  moreover have "concat [t] = t" by simp
  ultimately show ?thesis using True by (intro exI [of _ "[t]"]) simp
next
  case False
  from splitLoop_partition [OF assms, of 0 t "[]"] obtain ps where
    ps: "concat ps = t" "splitLoop t m 0 [] = Some (filter (\<lambda>c. c \<noteq> []) (map trim ps))"
    by auto
  have "splitTextIntoChunks m t = Some (filter (\<lambda>c. c \<noteq> []) (map trim ps))"
    using False ps(2) by (simp add: splitTextIntoChunks_def)
  with ps(1) False show ?thesis
    by (intro exI [of _ "filter (\<lambda>c. c \<noteq> []) (map trim ps)"] exI [of _ ps]) simp
qed

theorem splitTextIntoChunks_partition_witness:
  "(0::nat) < 5 \<and> (\<exists>chunks ps. splitTextIntoChunks 5 (js ''abcd. efgh'') = Some chunks \<and>
       concat ps = js ''abcd. efgh'' \<and>
       (if length (js ''abcd. efgh'') \<le> 5 then chunks = [js ''abcd. efgh'']
        else chunks = filter (\<lambda>c. c \<noteq> []) (map trim ps)) \<and>
       (js ''abcd. efgh'' \<noteq> [] \<longrightarrow> [] \<notin> set chunks))"
  using splitTextIntoChunks_partition [of 5 "js ''abcd. efgh''"] by simp

text \<open>
  C1 as the specification states it fails on the empty text: with chunk size 5 the
  result is the single chunk \<open>""\<close>, which is empty.
\<close>

theorem splitTextIntoChunks_empty_chunk:
  "splitTextIntoChunks 5 (js '''') = Some [js ''''] \<and> length (js '''') = 0"
  by (simp add: splitTextIntoChunks_def js_def)

text \<open>
  The backward scan starts at index \<open>end\<close>, the first code unit after the window, so a
  sentence end there gives a chunk of \<open>maxChunkSize + 1\<close> code units: here 6 with chunk
  size 5.
\<close>

lemma splitTextIntoChunks_boundary_terminator:
  "splitTextIntoChunks 5 (js ''abcde.gh'') = Some [js ''abcde.'', js ''gh'']"
  by code_simp

text \<open>
  C8.  A text no longer than the chunk size, the empty string and white space included,
  comes back as the one-element sequence holding the text verbatim, neither trimmed nor
  dropped.
\<close>

theorem splitTextIntoChunks_short:
  "length t \<le> m \<Longrightarrow> splitTextIntoChunks m t = Some [t]"
  by (simp add: splitTextIntoChunks_def)

theorem splitTextIntoChunks_short_witness:
  "length (js '' '') \<le> (3::nat) \<and> splitTextIntoChunks 3 (js '' '') = Some [js '' '']
   \<and> length (js []) \<le> (0::nat) \<and> splitTextIntoChunks 0 (js []) = Some [js []]"
  using splitTextIntoChunks_short [of "js '' ''" 3] splitTextIntoChunks_short [of "js []" 0]
  by (simp add: js_def)

section \<open>Properties of the WAV container\<close>

text \<open>The empty header, and a number below \<open>2^32\<close> (\<open>2^16\<close>) from its bytes.\<close>

lemma alloc44: "alloc 44 = [0,0,0,0,0,0,0,0,0,0,0,0,0,0,0,0,0,0,0,0,0,0,0,0,0,0,0,0,0,0,0,0,0,0,0,0,0,0,0,0,0,0,0,0]"
  by (simp add: alloc_def eval_nat_numeral)

lemma le32_bytes:
  fixes v :: nat
  assumes "v < 4294967296"
  shows "v mod 256 + 256 * (v div 256 mod 256) + 65536 * (v div 65536 mod 256) +
     16777216 * (v div 16777216 mod 256) = v"
proof -
  define a where "a = v div 256"
  define b where "b = a div 256"
  define c where "c = b div 256"
  have v: "v = v mod 256 + 256 * a" by (simp add: a_def)
  have a: "a = a mod 256 + 256 * b" by (simp add: b_def)
  have b: "b = b mod 256 + 256 * c" by (simp add: c_def)
  have b': "v div 65536 = b" by (simp add: a_def b_def div_mult2_eq)
  have c': "v div 16777216 = c" by (simp add: a_def b_def c_def div_mult2_eq)
  from assms have "c < 256" unfolding c' [symmetric] by simp
  then have c: "c mod 256 = c" by simp
  show ?thesis
    unfolding b' c' a_def [symmetric] c using v a b by linarith
qed

lemma le16_bytes:
  fixes v :: nat
  assumes "v < 65536"
  shows "v mod 256 + 256 * (v div 256 mod 256) = v"
proof -
  from assms have "v div 256 < 256" by simp
  then have "v div 256 mod 256 = v div 256" by simp
  then show ?thesis by simp
qed

lemma unat_byte: "unat (of_nat v :: byte) = v mod 256"
  by (simp add: unat_of_nat)

lemma createWavFile_bytes:
  assumes "36 + length pcm \<le> 4294967295" and "2 * R \<le> 4294967295"
  shows "createWavFile pcm R = Inr
    ([0x52, 0x49, 0x46, 0x46,
      of_nat (36 + length pcm), of_nat ((36 + length pcm) div 256),
      of_nat ((36 + length pcm) div 65536), of_nat ((36 + length pcm) div 16777216),
      0x57, 0x41, 0x56, 0x45, 0x66, 0x6D, 0x74, 0x20,
      16, 0, 0, 0, 1, 0, 1, 0,
      of_nat R, of_nat (R div 256), of_nat (R div 65536), of_nat (R div 16777216),
      of_nat (R * 2), of_nat (R * 2 div 256), of_nat (R * 2 div 65536),
      of_nat (R * 2 div 16777216),
      2, 0, 16, 0, 0x64, 0x61, 0x74, 0x61,
      of_nat (length pcm), of_nat (length pcm div 256), of_nat (length pcm div 65536),
      of_nat (length pcm div 16777216)] @ pcm)"
proof -
  from assms have "\<not> 4294967259 < length pcm" "\<not> 4294967295 < R" "\<not> 4294967295 < R * 2"
    "\<not> 4294967295 < length pcm"
    by simp_all
  then show ?thesis
    by (simp add: createWavFile_def alloc44 writeUInt32LE_def writeUInt16LE_def Let_def)
qed

lemma read32:
  "v < 4294967296 \<Longrightarrow>
   readUInt32LE [of_nat v, of_nat (v div 256), of_nat (v div 65536), of_nat (v div 16777216)] 0 = v"
  using le32_bytes [of v] by (simp add: readUInt32LE_def unat_byte)

lemma readUInt32LE_shift:
  "length pre = k \<Longrightarrow> readUInt32LE (pre @ a # b # c # d # rest) k = readUInt32LE [a, b, c, d] 0"
  by (auto simp add: readUInt32LE_def nth_append)

lemma readUInt16LE_shift:
  "length pre = k \<Longrightarrow> readUInt16LE (pre @ a # b # rest) k = readUInt16LE [a, b] 0"
  by (auto simp add: readUInt16LE_def nth_append)

text \<open>
  C3, within the range of the fields.  For a PCM buffer of \<open>N\<close> bytes with
  \<open>36 + N \<le> 2^32 - 1\<close> and a sample rate \<open>R\<close> with \<open>2 * R \<le> 2^32 - 1\<close>,
  \<open>createWavFile\<close> produces 44 header bytes followed by the PCM bytes, and the header
  reads: \<open>RIFF\<close>, size \<open>36 + N\<close>, \<open>WAVE\<close>, \<open>fmt \<close> with chunk size 16, format tag 1,
  1 channel, sample rate \<open>R\<close>, byte rate \<open>2 * R\<close>, block align 2, 16 bits per sample,
  \<open>data\<close> with chunk size \<open>N\<close>.
\<close>

theorem createWavFile_header:
  assumes "36 + length pcm \<le> 4294967295" and "2 * R \<le> 4294967295"
  shows "\<exists>wav. createWavFile pcm R = Inr wav \<and> length wav = 44 + length pcm \<and>
           take 4 wav = bytesOf ''RIFF'' \<and> readUInt32LE wav 4 = 36 + length pcm \<and>
           take 4 (drop 8 wav) = bytesOf ''WAVE'' \<and>
           take 4 (drop 12 wav) = bytesOf ''fmt '' \<and> readUInt32LE wav 16 = 16 \<and>
           readUInt16LE wav 20 = 1 \<and> readUInt16LE wav 22 = 1 \<and>
           readUInt32LE wav 24 = R \<and> readUInt32LE wav 28 = 2 * R \<and>
           readUInt16LE wav 32 = 2 \<and> readUInt16LE wav 34 = 16 \<and>
           take 4 (drop 36 wav) = bytesOf ''data'' \<and> readUInt32LE wav 40 = length pcm \<and>
           drop 44 wav = pcm"
proof -
  let ?n = "length pcm"
  let ?riff = "[0x52, 0x49, 0x46, 0x46] :: byte list"
  let ?size = "[of_nat (36 + ?n), of_nat ((36 + ?n) div 256), of_nat ((36 + ?n) div 65536),
                of_nat ((36 + ?n) div 16777216)] :: byte list"
  let ?wave = "[0x57, 0x41, 0x56, 0x45] :: byte list"
  let ?fmt = "[0x66, 0x6D, 0x74, 0x20] :: byte list"
  let ?rate = "[of_nat R, of_nat (R div 256), of_nat (R div 65536), of_nat (R div 16777216)]
                :: byte list"
  let ?brate = "[of_nat (R * 2), of_nat (R * 2 div 256), of_nat (R * 2 div 65536),
                 of_nat (R * 2 div 16777216)] :: byte list"
  let ?data = "[0x64, 0x61, 0x74, 0x61] :: byte list"
  let ?len = "[of_nat ?n, of_nat (?n div 256), of_nat (?n div 65536), of_nat (?n div 16777216)]
               :: byte list"
  let ?wav = "?riff @ ?size @ ?wave @ ?fmt @ [16, 0, 0, 0] @ [1, 0] @ [1, 0] @ ?rate @ ?brate @
              [2, 0] @ [16, 0] @ ?data @ ?len @ pcm"
  have wav: "createWavFile pcm R = Inr ?wav"
    using createWavFile_bytes [OF assms] by simp
  have len: "length ?wav = 44 + ?n" by simp
  have riff: "take 4 ?wav = bytesOf ''RIFF''" by (simp add: bytesOf_def)
  have wave: "take 4 (drop 8 ?wav) = bytesOf ''WAVE''" by (simp add: bytesOf_def)
  have fmt: "take 4 (drop 12 ?wav) = bytesOf ''fmt ''" by (simp add: bytesOf_def)
  have data: "take 4 (drop 36 ?wav) = bytesOf ''data''" by (simp add: bytesOf_def)
  have pcm: "drop 44 ?wav = pcm" by simp
  have size: "readUInt32LE ?wav 4 = 36 + ?n"
    using readUInt32LE_shift [of ?riff 4] read32 [of "36 + ?n"] assms(1) by simp
  have fsize: "readUInt32LE ?wav 16 = 16"
    using readUInt32LE_shift [of "?riff @ ?size @ ?wave @ ?fmt" 16 16 0 0 0]
    by (simp add: readUInt32LE_def)
  have tag: "readUInt16LE ?wav 20 = 1"
    using readUInt16LE_shift [of "?riff @ ?size @ ?wave @ ?fmt @ [16, 0, 0, 0]" 20 1 0]
    by (simp add: readUInt16LE_def)
  have chan: "readUInt16LE ?wav 22 = 1"
    using readUInt16LE_shift [of "?riff @ ?size @ ?wave @ ?fmt @ [16, 0, 0, 0] @ [1, 0]" 22 1 0]
    by (simp add: readUInt16LE_def)
  have rate: "readUInt32LE ?wav 24 = R"
    using readUInt32LE_shift
      [of "?riff @ ?size @ ?wave @ ?fmt @ [16, 0, 0, 0] @ [1, 0] @ [1, 0]" 24]
      read32 [of R] assms(2) by simp
  have brate: "readUInt32LE ?wav 28 = 2 * R"
    using readUInt32LE_shift
      [of "?riff @ ?size @ ?wave @ ?fmt @ [16, 0, 0, 0] @ [1, 0] @ [1, 0] @ ?rate" 28]
      read32 [of "R * 2"] assms(2) by simp
  have align: "readUInt16LE ?wav 32 = 2"
    using readUInt16LE_shift
      [of "?riff @ ?size @ ?wave @ ?fmt @ [16, 0, 0, 0] @ [1, 0] @ [1, 0] @ ?rate @ ?brate"
          32 2 0]
    by (simp add: readUInt16LE_def)
  have bits: "readUInt16LE ?wav 34 = 16"
    using readUInt16LE_shift
      [of "?riff @ ?size @ ?wave @ ?fmt @ [16, 0, 0, 0] @ [1, 0] @ [1, 0] @ ?rate @ ?brate @
           [2, 0]" 34 16 0]
    by (simp add: readUInt16LE_def)
  have dlen: "readUInt32LE ?wav 40 = ?n"
    using readUInt32LE_shift
      [of "?riff @ ?size @ ?wave @ ?fmt @ [16, 0, 0, 0] @ [1, 0] @ [1, 0] @ ?rate @ ?brate @
           [2, 0] @ [16, 0] @ ?data" 40]
      read32 [of ?n] assms(1) by simp
  show ?thesis
    using wav len riff size wave fmt fsize tag chan rate brate align bits data dlen pcm
    by blast
qed

theorem createWavFile_header_witness:
  "36 + length [1, 2, 3 :: byte] \<le> 4294967295 \<and> 2 * (24000::nat) \<le> 4294967295 \<and>
   (\<exists>wav. createWavFile [1, 2, 3] 24000 = Inr wav \<and> length wav = 44 + length [1, 2, 3 :: byte] \<and>
           take 4 wav = bytesOf ''RIFF'' \<and> readUInt32LE wav 4 = 36 + length [1, 2, 3 :: byte] \<and>
           take 4 (drop 8 wav) = bytesOf ''WAVE'' \<and>
           take 4 (drop 12 wav) = bytesOf ''fmt '' \<and> readUInt32LE wav 16 = 16 \<and>
           readUInt16LE wav 20 = 1 \<and> readUInt16LE wav 22 = 1 \<and>
           readUInt32LE wav 24 = 24000 \<and> readUInt32LE wav 28 = 2 * 24000 \<and>
           readUInt16LE wav 32 = 2 \<and> readUInt16LE wav 34 = 16 \<and>
           take 4 (drop 36 wav) = bytesOf ''data'' \<and> readUInt32LE wav 40 = length [1, 2, 3 :: byte] \<and>
           drop 44 wav = [1, 2, 3])"
  using createWavFile_header [of "[1, 2, 3]" 24000] by simp

text \<open>
  C3 for every sample rate fails where a field cannot hold its value: at the
  sample rate \<open>2^31\<close> the byte rate \<open>2^32\<close> is out of range for \<open>writeUInt32LE\<close>, which
  throws, and no container is produced.
\<close>

theorem createWavFile_byte_rate_overflow:
  "createWavFile [] 2147483648 = Inl (ValueOutOfRange 4294967296)"
  by (simp add: createWavFile_def alloc44 writeUInt32LE_def writeUInt16LE_def Let_def)

section \<open>Properties of retry and backoff\<close>

text \<open>The four ways through one round of the loop.\<close>

lemma retryLoop_stop:
  "\<not> of_nat retries \<le> retry_attempts limits \<Longrightarrow>
   retryLoop limits attempt retries ws = \<lparr>waits = ws, thrown = None\<rparr>"
  by (subst retryLoop.simps) simp

lemma retryLoop_returned:
  "of_nat retries \<le> retry_attempts limits \<Longrightarrow> attempt retries = Returned \<Longrightarrow>
   retryLoop limits attempt retries ws = \<lparr>waits = ws, thrown = None\<rparr>"
  by (subst retryLoop.simps) simp

lemma retryLoop_exhausted:
  "of_nat retries \<le> retry_attempts limits \<Longrightarrow> attempt retries = Threw error \<Longrightarrow>
   of_nat (retries + 1) > retry_attempts limits \<Longrightarrow>
   retryLoop limits attempt retries ws = \<lparr>waits = ws, thrown = Some error\<rparr>"
  by (subst retryLoop.simps) (simp add: Let_def)

lemma retryLoop_retry:
  "of_nat retries \<le> retry_attempts limits \<Longrightarrow> attempt retries = Threw error \<Longrightarrow>
   \<not> of_nat (retries + 1) > retry_attempts limits \<Longrightarrow>
   retryLoop limits attempt retries ws =
     retryLoop limits attempt (retries + 1)
       (ws @ [(if isRateLimit error then retry_delay limits else retry_delay limits / 3)
              * 2 ^ retries])"
  by (subst retryLoop.simps) (simp add: Let_def)

text \<open>
  The invariant of the loop: there are as many waits as failed calls, and wait number
  \<open>k\<close> (from 0) follows the failure of call \<open>k\<close> with the delay that its error selects.
\<close>

lemma retryLoop_waits:
  assumes "\<forall>k < length ws. \<exists>e. attempt k = Threw e \<and>
             ws ! k = (if isRateLimit e then retry_delay limits
                       else retry_delay limits / 3) * 2 ^ k"
    and "length ws = retries"
  shows "\<forall>k < length (waits (retryLoop limits attempt retries ws)).
           \<exists>e. attempt k = Threw e \<and>
             waits (retryLoop limits attempt retries ws) ! k =
               (if isRateLimit e then retry_delay limits else retry_delay limits / 3) * 2 ^ k"
  using assms
proof (induction "nat \<lfloor>retry_attempts limits\<rfloor> + 1 - retries" arbitrary: retries ws
       rule: less_induct)
  case less
  show ?case
  proof (cases "of_nat retries \<le> retry_attempts limits")
    case False
    then show ?thesis using less.prems by (simp add: retryLoop_stop)
  next
    case le: True
    show ?thesis
    proof (cases "attempt retries")
      case Returned
      then show ?thesis using le less.prems by (simp add: retryLoop_returned)
    next
      case (Threw error)
      show ?thesis
      proof (cases "of_nat (retries + 1) > retry_attempts limits")
        case True
        then show ?thesis using le Threw less.prems by (simp add: retryLoop_exhausted)
      next
        case False
        then have "rat_of_int (int retries + 1) \<le> retry_attempts limits" by simp
        then have "int retries + 1 \<le> \<lfloor>retry_attempts limits\<rfloor>"
          by (simp only: le_floor_iff)
        then have dec: "nat \<lfloor>retry_attempts limits\<rfloor> + 1 - (retries + 1)
                   < nat \<lfloor>retry_attempts limits\<rfloor> + 1 - retries"
          by linarith
        let ?ws = "ws @ [(if isRateLimit error then retry_delay limits
                          else retry_delay limits / 3) * 2 ^ retries]"
        have inv: "\<forall>k < length ?ws. \<exists>e. attempt k = Threw e \<and>
             ?ws ! k = (if isRateLimit e then retry_delay limits
                        else retry_delay limits / 3) * 2 ^ k"
          using less.prems Threw by (auto simp: nth_append less_Suc_eq)
        have len: "length ?ws = retries + 1" using less.prems by simp
        have "\<forall>k < length (waits (retryLoop limits attempt (retries + 1) ?ws)).
           \<exists>e. attempt k = Threw e \<and>
             waits (retryLoop limits attempt (retries + 1) ?ws) ! k =
               (if isRateLimit e then retry_delay limits else retry_delay limits / 3) * 2 ^ k"
          using less.hyps [OF dec inv len] .
        then show ?thesis
          using retryLoop_retry [where attempt = attempt, OF le Threw False] by simp
      qed
    qed
  qed
qed

text \<open>When every call fails, the loop waits after each of the first \<open>n\<close> failures and
  rethrows the error of call \<open>n\<close>, the last one.\<close>

lemma retryLoop_all_fail:
  assumes "retry_attempts limits = of_nat n" and "\<forall>k \<le> n. attempt k = Threw (err k)"
    and "retries \<le> n"
  shows "retryLoop limits attempt retries ws =
           \<lparr>waits = ws @ map (\<lambda>k. (if isRateLimit (err k) then retry_delay limits
                                     else retry_delay limits / 3) * 2 ^ k) [retries..<n],
            thrown = Some (err n)\<rparr>"
  using assms(3)
proof (induction "n - retries" arbitrary: retries ws)
  case 0
  then have eq: "retries = n" by simp
  have "attempt n = Threw (err n)" using assms(2) by simp
  then show ?case unfolding eq using assms(1) by (simp add: retryLoop_exhausted)
next
  case (Suc d)
  then have lt: "retries < n" and d: "d = n - (retries + 1)" and le: "retries + 1 \<le> n"
    by simp_all
  have th: "attempt retries = Threw (err retries)" using assms(2) lt by simp
  have le': "of_nat retries \<le> retry_attempts limits" using lt assms(1) by simp
  have nle: "\<not> of_nat (retries + 1) > retry_attempts limits" using le assms(1)
    by (simp add: not_less del: of_nat_Suc of_nat_add)
  have up: "[retries..<n] = retries # [retries + 1..<n]" using lt by (simp add: upt_conv_Cons)
  show ?case
    unfolding retryLoop_retry [where attempt = attempt, OF le' th nle] Suc.hyps(1) [OF d le] up
    by simp
qed

text \<open>
  A run in which the calls fail up to call \<open>j\<close>, which returns within the retries
  allowed: every failure before it is waited for, and nothing is thrown.
\<close>

lemma retryLoop_success:
  assumes "\<forall>k < j. attempt k = Threw (err k)" and "attempt j = Returned"
    and "of_nat j \<le> retry_attempts limits" and "retries \<le> j"
  shows "retryLoop limits attempt retries ws =
           \<lparr>waits = ws @ map (\<lambda>k. (if isRateLimit (err k) then retry_delay limits
                                     else retry_delay limits / 3) * 2 ^ k) [retries..<j],
            thrown = None\<rparr>"
  using assms(4)
proof (induction "j - retries" arbitrary: retries ws)
  case 0
  then have eq: "retries = j" by simp
  show ?case unfolding eq using assms(2,3) by (simp add: retryLoop_returned)
next
  case (Suc d)
  then have lt: "retries < j" and d: "d = j - (retries + 1)" and le: "retries + 1 \<le> j"
    by simp_all
  have th: "attempt retries = Threw (err retries)" using assms(1) lt by simp
  have "rat_of_nat retries \<le> of_nat j" using lt by simp
  then have le': "of_nat retries \<le> retry_attempts limits" using assms(3) by linarith
  have "rat_of_nat (retries + 1) \<le> of_nat j" using le by (simp del: of_nat_Suc of_nat_add)
  then have nle: "\<not> of_nat (retries + 1) > retry_attempts limits" using assms(3) by linarith
  have up: "[retries..<j] = retries # [retries + 1..<j]" using lt by (simp add: upt_conv_Cons)
  show ?case
    unfolding retryLoop_retry [where attempt = attempt, OF le' th nle] Suc.hyps(1) [OF d le] up
    by simp
qed

text \<open>
  C2.  In every run of \<open>generateSingleAudio\<close> the wait before retry \<open>k\<close>, counted from
  1, follows the failure of call \<open>k\<close> and is the base delay times \<open>2^(k-1)\<close> (below:
  wait and call \<open>k\<close> counted from 0, factor \<open>2^k\<close>), the base delay being
  \<open>retry_delay\<close> when that failure is a rate limit and \<open>retry_delay / 3\<close> otherwise.
  When the calls fail up to call \<open>j\<close>, which returns, and \<open>j\<close> is within
  \<open>retry_attempts\<close>, the function waits once after each of the \<open>j\<close> failures, each
  wait of that length, and returns without an error.  When \<open>retry_attempts = n\<close> and
  all the \<open>n + 1\<close> calls fail, the function waits \<open>n\<close> times, after each failure but
  the last, and then throws the error of the last call.
\<close>

theorem generateSingleAudio_backoff:
  "(\<forall>k < length (waits (generateSingleAudio limits attempt)).
      \<exists>e. attempt k = Threw e \<and>
        waits (generateSingleAudio limits attempt) ! k =
          (if isRateLimit e then retry_delay limits else retry_delay limits / 3) * 2 ^ k) \<and>
   ((\<forall>k < j. attempt k = Threw (err k)) \<longrightarrow> attempt j = Returned \<longrightarrow>
      of_nat j \<le> retry_attempts limits \<longrightarrow>
      generateSingleAudio limits attempt =
        \<lparr>waits = map (\<lambda>k. (if isRateLimit (err k) then retry_delay limits
                             else retry_delay limits / 3) * 2 ^ k) [0..<j],
         thrown = None\<rparr>) \<and>
   (retry_attempts limits = of_nat n \<longrightarrow> (\<forall>k \<le> n. attempt k = Threw (err k)) \<longrightarrow>
      generateSingleAudio limits attempt =
        \<lparr>waits = map (\<lambda>k. (if isRateLimit (err k) then retry_delay limits
                             else retry_delay limits / 3) * 2 ^ k) [0..<n],
         thrown = Some (err n)\<rparr>)"
proof (intro conjI impI)
  show "\<forall>k < length (waits (generateSingleAudio limits attempt)).
      \<exists>e. attempt k = Threw e \<and>
        waits (generateSingleAudio limits attempt) ! k =
          (if isRateLimit e then retry_delay limits else retry_delay limits / 3) * 2 ^ k"
    unfolding generateSingleAudio_def by (rule retryLoop_waits) simp_all
next
  assume "\<forall>k < j. attempt k = Threw (err k)" and "attempt j = Returned"
    and "of_nat j \<le> retry_attempts limits"
  then show "generateSingleAudio limits attempt =
        \<lparr>waits = map (\<lambda>k. (if isRateLimit (err k) then retry_delay limits
                             else retry_delay limits / 3) * 2 ^ k) [0..<j],
         thrown = None\<rparr>"
    unfolding generateSingleAudio_def
    using retryLoop_success [of j attempt err limits 0 "[]"] by simp
next
  assume "retry_attempts limits = of_nat n" and "\<forall>k \<le> n. attempt k = Threw (err k)"
  then show "generateSingleAudio limits attempt =
        \<lparr>waits = map (\<lambda>k. (if isRateLimit (err k) then retry_delay limits
                             else retry_delay limits / 3) * 2 ^ k) [0..<n],
         thrown = Some (err n)\<rparr>"
    unfolding generateSingleAudio_def
    using retryLoop_all_fail [of limits n attempt err 0 "[]"] by simp
qed

text \<open>
  The run named in C2: 3 retry attempts, a retry delay of 1000 ms and a rate limit
  (HTTP 429) at every call give the waits 1000, 2000 and 4000 ms and then the error of
  the 4th call.  And a run that ends in success, with the limits of the Google provider
  (retry delay 30000 ms): a rate limit, then an error of another kind, then a call that
  returns give the waits 30000 ms and 10000 * 2 = 20000 ms and no error.
\<close>

theorem generateSingleAudio_backoff_witness:
  "retry_attempts (processing openaiTTSConfig\<lparr>retry_delay := 1000\<rparr>) = of_nat 3 \<and>
   generateSingleAudio (processing openaiTTSConfig\<lparr>retry_delay := 1000\<rparr>)
       (\<lambda>k. Threw \<lparr>status = Some 429, message = None\<rparr>) =
     \<lparr>waits = [1000, 2000, 4000], thrown = Some \<lparr>status = Some 429, message = None\<rparr>\<rparr> \<and>
   of_nat 2 \<le> retry_attempts (processing googleTTSConfig) \<and>
   generateSingleAudio (processing googleTTSConfig)
       (\<lambda>k. if k = 0 then Threw \<lparr>status = Some 429, message = None\<rparr>
            else if k = 1 then Threw \<lparr>status = Some 500, message = Some (js ''Internal error'')\<rparr>
            else Returned) =
     \<lparr>waits = [30000, 20000], thrown = None\<rparr>"
proof -
  have a: "generateSingleAudio (processing openaiTTSConfig\<lparr>retry_delay := 1000\<rparr>)
       (\<lambda>k. Threw \<lparr>status = Some 429, message = None\<rparr>) =
     \<lparr>waits = [1000, 2000, 4000], thrown = Some \<lparr>status = Some 429, message = None\<rparr>\<rparr>"
    using generateSingleAudio_backoff
      [of "processing openaiTTSConfig\<lparr>retry_delay := 1000\<rparr>"
        "\<lambda>k. Threw \<lparr>status = Some 429, message = None\<rparr>" 0
        "\<lambda>k. \<lparr>status = Some 429, message = None\<rparr>" 3]
    by (simp add: openaiTTSConfig_def isRateLimit_def upt_rec)
  have r: "\<not> isRateLimit \<lparr>status = Some 500, message = Some (js ''Internal error'')\<rparr>"
    by code_simp
  have b: "generateSingleAudio (processing googleTTSConfig)
       (\<lambda>k. if k = 0 then Threw \<lparr>status = Some 429, message = None\<rparr>
            else if k = 1 then Threw \<lparr>status = Some 500, message = Some (js ''Internal error'')\<rparr>
            else Returned) =
     \<lparr>waits = [30000, 20000], thrown = None\<rparr>"
    using generateSingleAudio_backoff
      [of "processing googleTTSConfig"
        "\<lambda>k. if k = 0 then Threw \<lparr>status = Some 429, message = None\<rparr>
            else if k = 1 then Threw \<lparr>status = Some 500, message = Some (js ''Internal error'')\<rparr>
            else Returned" 2
        "\<lambda>k. if k = 0 then \<lparr>status = Some 429, message = None\<rparr>
             else \<lparr>status = Some 500, message = Some (js ''Internal error'')\<rparr>" 0] r
    by (simp add: googleTTSConfig_def isRateLimit_def upt_rec less_Suc_eq numeral_2_eq_2)
  show ?thesis using a b by (simp add: openaiTTSConfig_def googleTTSConfig_def)
qed

section \<open>Properties of chapter resolution\<close>

lemma parseInt_10: "parseInt (js ''10'') = Some 10"
  by code_simp

lemma parseInt_chaos: "parseInt (js ''chaos'') = None"
  by code_simp

lemma parseInt_zzz: "parseInt (js ''zzz-nonexistent'') = None"
  by code_simp

lemma parseInt_pigs: "parseInt (js ''3 little pigs'') = Some 3"
  by code_simp

text \<open>
  C5.  For every table of contents: \<open>"10"\<close> resolves to the first chapter whose order
  is 10; \<open>"chaos"\<close> resolves to the first chapter, in the order of the table, whose
  lower-cased title contains the lower-cased identifier; and \<open>"zzz-nonexistent"\<close>, when
  no title contains it in that way, resolves to \<open>null\<close>.  In general, an identifier
  from which \<open>parseInt\<close> reads no number resolves to the first chapter whose lower-cased
  title contains the lower-cased identifier; and an identifier resolves to \<open>null\<close>
  exactly when it matches no chapter: no chapter has the order read from it or, when no
  number is read, no title contains it.  Nothing is thrown: the result is a chapter or
  \<open>null\<close>.  (\<open>find\<close> gives the first element of the list that satisfies the test,
  \<open>None\<close> when there is none.)
\<close>

theorem findChapter_resolution:
  "findChapter toLowerCase table (js ''10'') = find (\<lambda>c. order c = 10) (chapters table) \<and>
   findChapter toLowerCase table (js ''chaos'') =
     find (\<lambda>c. includesStr (toLowerCase (title c)) (toLowerCase (js ''chaos'')))
       (chapters table) \<and>
   ((\<forall>c \<in> set (chapters table).
       \<not> includesStr (toLowerCase (title c)) (toLowerCase (js ''zzz-nonexistent''))) \<longrightarrow>
    findChapter toLowerCase table (js ''zzz-nonexistent'') = None) \<and>
   (parseInt identifier = None \<longrightarrow>
    findChapter toLowerCase table identifier =
      find (\<lambda>c. includesStr (toLowerCase (title c)) (toLowerCase identifier))
        (chapters table)) \<and>
   (findChapter toLowerCase table identifier = None \<longleftrightarrow>
      (case parseInt identifier of
         Some n \<Rightarrow> \<forall>c \<in> set (chapters table). order c \<noteq> n
       | None \<Rightarrow> \<forall>c \<in> set (chapters table).
                   \<not> includesStr (toLowerCase (title c)) (toLowerCase identifier)))"
  by (auto simp add: findChapter_def parseInt_10 parseInt_chaos parseInt_zzz find_None_iff
      split: option.splits)

text \<open>
  In the example table: \<open>"10"\<close> and \<open>"chaos"\<close> as above, \<open>"TITANS"\<close> found by its
  title, and three identifiers that match no chapter, one of them a number.
\<close>

theorem findChapter_resolution_witness:
  "findChapter asciiLowerCase exampleToc (js ''10'') =
     Some \<lparr>chapter_id = js ''ch-10'', title = js ''The Titans'', order = 10,
           filename = js ''10.md''\<rparr> \<and>
   findChapter asciiLowerCase exampleToc (js ''chaos'') =
     Some \<lparr>chapter_id = js ''ch-2'', title = js ''Out of CHAOS'', order = 2,
           filename = js ''02.md''\<rparr> \<and>
   findChapter asciiLowerCase exampleToc (js ''zzz-nonexistent'') = None \<and>
   parseInt (js ''TITANS'') = None \<and>
   findChapter asciiLowerCase exampleToc (js ''TITANS'') =
     Some \<lparr>chapter_id = js ''ch-10'', title = js ''The Titans'', order = 10,
           filename = js ''10.md''\<rparr> \<and>
   parseInt (js ''olympus'') = None \<and>
   findChapter asciiLowerCase exampleToc (js ''olympus'') = None \<and>
   parseInt (js ''7'') = Some 7 \<and>
   findChapter asciiLowerCase exampleToc (js ''7'') = None"
proof -
  have none: "\<forall>c \<in> set (chapters exampleToc).
      \<not> includesStr (asciiLowerCase (title c)) (asciiLowerCase (js ''zzz-nonexistent''))"
    by code_simp
  have ten: "find (\<lambda>c. order c = 10) (chapters exampleToc) =
     Some \<lparr>chapter_id = js ''ch-10'', title = js ''The Titans'', order = 10,
           filename = js ''10.md''\<rparr>"
    by code_simp
  have chaos: "find (\<lambda>c. includesStr (asciiLowerCase (title c)) (asciiLowerCase (js ''chaos'')))
       (chapters exampleToc) =
     Some \<lparr>chapter_id = js ''ch-2'', title = js ''Out of CHAOS'', order = 2,
           filename = js ''02.md''\<rparr>"
    by code_simp
  have pt: "parseInt (js ''TITANS'') = None" by code_simp
  have titans: "find (\<lambda>c. includesStr (asciiLowerCase (title c)) (asciiLowerCase (js ''TITANS'')))
       (chapters exampleToc) =
     Some \<lparr>chapter_id = js ''ch-10'', title = js ''The Titans'', order = 10,
           filename = js ''10.md''\<rparr>"
    by code_simp
  have po: "parseInt (js ''olympus'') = None" by code_simp
  have olympus: "\<forall>c \<in> set (chapters exampleToc).
      \<not> includesStr (asciiLowerCase (title c)) (asciiLowerCase (js ''olympus''))"
    by code_simp
  have p7: "parseInt (js ''7'') = Some 7" by code_simp
  have seven: "\<forall>c \<in> set (chapters exampleToc). order c \<noteq> 7"
    by code_simp
  note t = findChapter_resolution [of asciiLowerCase exampleToc "js ''TITANS''"]
  note ol = findChapter_resolution [of asciiLowerCase exampleToc "js ''olympus''"]
  note sv = findChapter_resolution [of asciiLowerCase exampleToc "js ''7''"]
  have r10: "findChapter asciiLowerCase exampleToc (js ''10'') =
     Some \<lparr>chapter_id = js ''ch-10'', title = js ''The Titans'', order = 10,
           filename = js ''10.md''\<rparr>"
    using t ten by (simp only:)
  have rchaos: "findChapter asciiLowerCase exampleToc (js ''chaos'') =
     Some \<lparr>chapter_id = js ''ch-2'', title = js ''Out of CHAOS'', order = 2,
           filename = js ''02.md''\<rparr>"
    using t chaos by (simp only:)
  have rzzz: "findChapter asciiLowerCase exampleToc (js ''zzz-nonexistent'') = None"
    using t none by blast
  have rtitans: "findChapter asciiLowerCase exampleToc (js ''TITANS'') =
     Some \<lparr>chapter_id = js ''ch-10'', title = js ''The Titans'', order = 10,
           filename = js ''10.md''\<rparr>"
    using t pt titans by (simp only:)
  have rolympus: "findChapter asciiLowerCase exampleToc (js ''olympus'') = None"
    using ol [THEN conjunct2, THEN conjunct2, THEN conjunct2, THEN conjunct2] olympus
    unfolding po option.case by (rule iffD2)
  have rseven: "findChapter asciiLowerCase exampleToc (js ''7'') = None"
    using sv [THEN conjunct2, THEN conjunct2, THEN conjunct2, THEN conjunct2] seven
    unfolding p7 option.case by (rule iffD2)
  show ?thesis using r10 rchaos rzzz pt rtitans po rolympus p7 rseven by (simp only: simp_thms)
qed

text \<open>
  C10.  An identifier from which \<open>parseInt\<close> reads a number is resolved by the order of
  the chapters alone: the result is the first chapter with that order, and \<open>null\<close> when
  there is none, whatever the titles contain.
\<close>

theorem findChapter_numeric_only:
  "parseInt identifier = Some n \<Longrightarrow>
   findChapter toLowerCase table identifier = find (\<lambda>c. order c = n) (chapters table) \<and>
   ((\<forall>c \<in> set (chapters table). order c \<noteq> n) \<longrightarrow>
    findChapter toLowerCase table identifier = None)"
  by (simp add: findChapter_def find_None_iff)

text \<open>
  \<open>"3 little pigs"\<close> parses as 3 and resolves to the chapter of order 3, not to the
  chapter of that title; with the first two chapters only, it resolves to \<open>null\<close>
  although the title of a chapter is the identifier itself.
\<close>

theorem findChapter_numeric_only_witness:
  "parseInt (js ''3 little pigs'') = Some 3 \<and>
   findChapter asciiLowerCase exampleToc (js ''3 little pigs'') =
     Some \<lparr>chapter_id = js ''ch-3'', title = js ''Chaos again'', order = 3,
           filename = js ''03.md''\<rparr> \<and>
   includesStr (asciiLowerCase (title (hd (chapters exampleToc))))
     (asciiLowerCase (js ''3 little pigs'')) \<and>
   findChapter asciiLowerCase (exampleToc\<lparr>chapters := take 2 (chapters exampleToc)\<rparr>)
     (js ''3 little pigs'') = None"
proof -
  have three: "find (\<lambda>c. order c = 3) (chapters exampleToc) =
     Some \<lparr>chapter_id = js ''ch-3'', title = js ''Chaos again'', order = 3,
           filename = js ''03.md''\<rparr>"
    by code_simp
  have inc: "includesStr (asciiLowerCase (title (hd (chapters exampleToc))))
     (asciiLowerCase (js ''3 little pigs''))"
    by code_simp
  have no3: "\<forall>c \<in> set (chapters (exampleToc\<lparr>chapters := take 2 (chapters exampleToc)\<rparr>)).
               order c \<noteq> 3"
    by code_simp
  show ?thesis
    using findChapter_numeric_only [OF parseInt_pigs, of asciiLowerCase exampleToc]
      findChapter_numeric_only [OF parseInt_pigs, of asciiLowerCase
        "exampleToc\<lparr>chapters := take 2 (chapters exampleToc)\<rparr>"]
      parseInt_pigs three inc no3
    by (simp add: find_None_iff)
qed

section \<open>Properties of \<open>getEffectiveOptions\<close>\<close>

text \<open>
  C6, as the code has it.  For a registered provider, a field that is missing from the
  overrides takes the provider's default (voice, model and format from
  \<open>default_settings\<close>, chunk size from \<open>processing.max_chunk_size\<close>, rate-limit delay
  from \<open>processing.rate_limit_delay\<close>); a field that is supplied with a non-empty string
  or a number other than 0 is used as given; a field that is supplied as the empty
  string or as 0 takes the default as well.
\<close>

theorem getEffectiveOptions_merge:
  assumes "getProviderConfig p = Inr config"
  shows "\<exists>r. getEffectiveOptions p opts = Inr r \<and>
    voice r = (case ChapterAudioOptions.voice opts of
                 None \<Rightarrow> DefaultSettings.voice (default_settings config)
               | Some v \<Rightarrow> if v = [] then DefaultSettings.voice (default_settings config) else v) \<and>
    model r = (case ChapterAudioOptions.model opts of
                 None \<Rightarrow> DefaultSettings.model (default_settings config)
               | Some v \<Rightarrow> if v = [] then DefaultSettings.model (default_settings config) else v) \<and>
    format r = (case ChapterAudioOptions.format opts of
                  None \<Rightarrow> DefaultSettings.format (default_settings config)
                | Some v \<Rightarrow> if v = [] then DefaultSettings.format (default_settings config) else v) \<and>
    chunk_size r = (case ChapterAudioOptions.chunk_size opts of
                      None \<Rightarrow> max_chunk_size (processing config)
                    | Some n \<Rightarrow> if n = 0 then max_chunk_size (processing config) else n) \<and>
    rate_limit_delay r =
      (case ChapterAudioOptions.rate_limit_delay opts of
         None \<Rightarrow> ProcessingLimits.rate_limit_delay (processing config)
       | Some n \<Rightarrow> if n = 0 then ProcessingLimits.rate_limit_delay (processing config) else n)"
  using assms by (simp add: getEffectiveOptions_def orString_def orNumber_def)

theorem getEffectiveOptions_merge_witness:
  "getProviderConfig openai = Inr openaiTTSConfig \<and>
   getEffectiveOptions openai
     \<lparr>ChapterAudioOptions.provider = None, voice = Some (js ''nova''), model = None,
      format = Some (js ''''), force_regenerate = None, chunk_size = Some 500,
      rate_limit_delay = None\<rparr> =
   Inr \<lparr>provider = openai, voice = js ''nova'', model = js ''tts-1'', format = js ''mp3'',
        force_regenerate = False, chunk_size = 500, rate_limit_delay = 1000\<rparr>"
proof -
  have cfg: "getProviderConfig openai = Inr openaiTTSConfig"
    by (simp add: getProviderConfig_def providers_def)
  from getEffectiveOptions_merge [OF cfg, of
     "\<lparr>ChapterAudioOptions.provider = None, voice = Some (js ''nova''), model = None,
      format = Some (js ''''), force_regenerate = None, chunk_size = Some 500,
      rate_limit_delay = None\<rparr>"]
  obtain r where r: "getEffectiveOptions openai
     \<lparr>ChapterAudioOptions.provider = None, voice = Some (js ''nova''), model = None,
      format = Some (js ''''), force_regenerate = None, chunk_size = Some 500,
      rate_limit_delay = None\<rparr> = Inr r"
    "voice r = js ''nova''" "model r = js ''tts-1''" "format r = js ''mp3''"
    "chunk_size r = 500" "rate_limit_delay r = 1000"
    by (auto simp: openaiTTSConfig_def js_def)
  have "provider r = openai" "force_regenerate r = False"
    using r(1) cfg by (auto simp: getEffectiveOptions_def orProvider_def orBool_def)
  with r have "r = \<lparr>provider = openai, voice = js ''nova'', model = js ''tts-1'',
        format = js ''mp3'', force_regenerate = False, chunk_size = 500,
        rate_limit_delay = 1000\<rparr>"
    by simp
  with r(1) cfg show ?thesis by simp
qed

text \<open>
  C6 as the specification states it fails for a supplied 0: an override of the rate-limit delay to 0
  for the Google provider is not used, the result holds the default of 10000 ms.
\<close>

theorem getEffectiveOptions_zero_override:
  "getEffectiveOptions google
     \<lparr>ChapterAudioOptions.provider = None, voice = None, model = None, format = None,
      force_regenerate = None, chunk_size = None, rate_limit_delay = Some 0\<rparr> =
   Inr \<lparr>provider = google, voice = js ''Kore'', model = js ''gemini-2.5-flash-preview-tts'',
        format = js ''audio/wav'', force_regenerate = False, chunk_size = 3000,
        rate_limit_delay = 10000\<rparr>"
  by (simp add: getEffectiveOptions_def getProviderConfig_def providers_def googleTTSConfig_def
      orProvider_def orString_def orNumber_def orBool_def)

section \<open>Properties of multi-chapter generation\<close>

lemma parseInt_1: "parseInt (js ''1'') = Some 1"
  by code_simp

lemma parseInt_2: "parseInt (js ''2'') = Some 2"
  by code_simp

lemma parseInt_3: "parseInt (js ''3'') = Some 3"
  by code_simp

text \<open>
  C7, as the code has it.  Let the book be valid, let the identifiers \<open>"1"\<close>, \<open>"2"\<close>,
  \<open>"3"\<close> resolve to the chapters \<open>c1\<close>, \<open>c2\<close>, \<open>c3\<close> whose content files exist, and let
  the generator complete for \<open>c1\<close> and \<open>c3\<close> and throw \<open>e\<close> for \<open>c2\<close>.  Then
  \<open>generateMultipleChapters ["1", "2", "3"]\<close> processes the identifiers in the order
  given, waits 3 seconds after chapter 1, logs the failure of chapter 2 and goes on to
  chapter 3 (without a wait after the failure), writes the audio files of \<open>c1\<close> and
  \<open>c3\<close> and ends with the completion message.  It counts nothing: the console holds
  the lines below and no tally of successes and failures.
\<close>

theorem generateMultipleChapters_partial_failure:
  assumes "invalid bk = None"
    and "find (\<lambda>c. order c = 1) (chapters (toc bk)) = Some c1"
    and "find (\<lambda>c. order c = 2) (chapters (toc bk)) = Some c2"
    and "find (\<lambda>c. order c = 3) (chapters (toc bk)) = Some c3"
    and "contentExists bk (filename c1)" and "contentExists bk (filename c2)"
    and "contentExists bk (filename c3)"
    and "generateBookAudio bk c1 = None" and "generateBookAudio bk c2 = Some e"
    and "generateBookAudio bk c3 = None"
  shows "generateMultipleChapters toLowerCase bk [js ''1'', js ''2'', js ''3'']
           \<lparr>console = [], audioFiles = []\<rparr> =
         \<lparr>console =
            [BatchStarted 3,
             ProcessingChapter 1 3 (js ''1''), GeneratingAudioFor c1, AudioGenerated c1,
             Waiting 3000,
             ProcessingChapter 2 3 (js ''2''), GeneratingAudioFor c2,
             FailedToGenerate (js ''2'') (Raised e),
             ProcessingChapter 3 3 (js ''3''), GeneratingAudioFor c3, AudioGenerated c3,
             BatchCompleted],
          audioFiles = [c1, c3]\<rparr>"
proof -
  have f1: "findChapter toLowerCase (toc bk) (js ''1'') = Some c1"
    using assms(2) by (simp add: findChapter_def parseInt_1)
  have f2: "findChapter toLowerCase (toc bk) (js ''2'') = Some c2"
    using assms(3) by (simp add: findChapter_def parseInt_2)
  have f3: "findChapter toLowerCase (toc bk) (js ''3'') = Some c3"
    using assms(4) by (simp add: findChapter_def parseInt_3)
  have g1: "\<And>w. generateChapterAudio toLowerCase bk (js ''1'') w =
      (None, consoleLog (AudioGenerated c1)
               ((consoleLog (GeneratingAudioFor c1) w)
                  \<lparr>audioFiles := audioFiles w @ [c1]\<rparr>))"
    using assms(1,5,8) f1 by (simp add: generateChapterAudio_def consoleLog_def)
  have g2: "\<And>w. generateChapterAudio toLowerCase bk (js ''2'') w =
      (Some (Raised e), consoleLog (GeneratingAudioFor c2) w)"
    using assms(1,6,9) f2 by (simp add: generateChapterAudio_def consoleLog_def)
  have g3: "\<And>w. generateChapterAudio toLowerCase bk (js ''3'') w =
      (None, consoleLog (AudioGenerated c3)
               ((consoleLog (GeneratingAudioFor c3) w)
                  \<lparr>audioFiles := audioFiles w @ [c3]\<rparr>))"
    using assms(1,7,10) f3 by (simp add: generateChapterAudio_def consoleLog_def)
  show ?thesis
    by (simp add: generateMultipleChapters_def g1 g2 g3 consoleLog_def)
qed

theorem generateMultipleChapters_partial_failure_witness:
  "invalid exampleBook = None \<and>
   generateMultipleChapters asciiLowerCase exampleBook [js ''1'', js ''2'', js ''3'']
     \<lparr>console = [], audioFiles = []\<rparr> =
   \<lparr>console =
      [BatchStarted 3,
       ProcessingChapter 1 3 (js ''1''), GeneratingAudioFor (chapters exampleToc ! 0),
       AudioGenerated (chapters exampleToc ! 0),
       Waiting 3000,
       ProcessingChapter 2 3 (js ''2''), GeneratingAudioFor (chapters exampleToc ! 1),
       FailedToGenerate (js ''2'') (Raised \<lparr>status = Some 429, message = None\<rparr>),
       ProcessingChapter 3 3 (js ''3''), GeneratingAudioFor (chapters exampleToc ! 2),
       AudioGenerated (chapters exampleToc ! 2),
       BatchCompleted],
    audioFiles = [chapters exampleToc ! 0, chapters exampleToc ! 2]\<rparr>"
proof -
  have 1: "find (\<lambda>c. order c = 1) (chapters (toc exampleBook)) = Some (chapters exampleToc ! 0)"
    by code_simp
  have 2: "find (\<lambda>c. order c = 2) (chapters (toc exampleBook)) = Some (chapters exampleToc ! 1)"
    by code_simp
  have 3: "find (\<lambda>c. order c = 3) (chapters (toc exampleBook)) = Some (chapters exampleToc ! 2)"
    by code_simp
  have ok: "generateBookAudio exampleBook (chapters exampleToc ! 0) = None"
    "generateBookAudio exampleBook (chapters exampleToc ! 2) = None"
    by code_simp+
  have ko: "generateBookAudio exampleBook (chapters exampleToc ! 1) =
            Some \<lparr>status = Some 429, message = None\<rparr>"
    by code_simp
  have valid: "invalid exampleBook = None"
    by (simp add: exampleBook_def)
  have files: "\<And>file. contentExists exampleBook file"
    by (simp add: exampleBook_def)
  show ?thesis
    using generateMultipleChapters_partial_failure
      [OF valid 1 2 3 files files files ok(1) ko ok(2), of asciiLowerCase] valid
    by simp
qed

text \<open>
  C7 as the specification states it fails in its last part: the run on the example book, where
  chapter 2 fails, prints the lines below, the last of them the completion message, and
  reports no count of successes or failures.
\<close>

theorem generateMultipleChapters_no_tally:
  "console (generateMultipleChapters asciiLowerCase exampleBook [js ''1'', js ''2'', js ''3'']
             \<lparr>console = [], audioFiles = []\<rparr>) =
     [BatchStarted 3,
      ProcessingChapter 1 3 (js ''1''), GeneratingAudioFor (chapters exampleToc ! 0),
      AudioGenerated (chapters exampleToc ! 0),
      Waiting 3000,
      ProcessingChapter 2 3 (js ''2''), GeneratingAudioFor (chapters exampleToc ! 1),
      FailedToGenerate (js ''2'') (Raised \<lparr>status = Some 429, message = None\<rparr>),
      ProcessingChapter 3 3 (js ''3''), GeneratingAudioFor (chapters exampleToc ! 2),
      AudioGenerated (chapters exampleToc ! 2),
      BatchCompleted]"
  by code_simp

section \<open>Properties of the text normalizer\<close>

text \<open>
  C9.  With \<open>clean_markdown\<close> off the normalizer returns its input unchanged, whatever
  the other settings are.
\<close>

theorem normalizeTextForTTS_clean_markdown_off:
  "\<not> clean_markdown settings \<Longrightarrow> normalizeTextForTTS settings t = t"
  by (simp add: normalizeTextForTTS_def)

theorem normalizeTextForTTS_clean_markdown_off_witness:
  "\<not> clean_markdown (globalSettings\<lparr>clean_markdown := False\<rparr>) \<and>
   remove_footnotes (globalSettings\<lparr>clean_markdown := False\<rparr>) \<and>
   normalize_whitespace (globalSettings\<lparr>clean_markdown := False\<rparr>) \<and>
   normalizeTextForTTS (globalSettings\<lparr>clean_markdown := False\<rparr>) (js ''  **a** [1]  b '')
     = js ''  **a** [1]  b ''"
  using normalizeTextForTTS_clean_markdown_off
    [of "globalSettings\<lparr>clean_markdown := False\<rparr>" "js ''  **a** [1]  b ''"]
  by (simp add: globalSettings_def)

text \<open>
  C4 as the specification states it fails.  Under the settings of the repository the text \<open>- - a\<close>
  normalizes to \<open>- a\<close>, from which a second pass removes another list marker.
\<close>

theorem normalizeTextForTTS_not_idempotent:
  "normalizeTextForTTS globalSettings (normalizeTextForTTS globalSettings (js ''- - a'')) \<noteq>
   normalizeTextForTTS globalSettings (js ''- - a'')"
  by code_simp

lemma normalizeTextForTTS_list_markers:
  "normalizeTextForTTS globalSettings (js ''- - a'') = js ''- a'' \<and>
   normalizeTextForTTS globalSettings (js ''- a'') = js ''a''"
  by code_simp

text \<open>
  A regular expression does not match in a text that has no character of a class of
  which the expression needs at least one; without a match, \<open>replace\<close> returns the
  text.
\<close>

lemma firstSome_None: "(\<And>x. x \<in> set xs \<Longrightarrow> f x = None) \<Longrightarrow> firstSome f xs = None"
  by (induction xs) auto

lemma counts_0: "atLeastOne q \<Longrightarrow> counts q 0 = []"
  by (cases q) auto

lemma matchItems_absent:
  "it \<in> set its \<Longrightarrow> atLeastOne (itemQuantifier it) \<Longrightarrow>
   \<forall>c \<in> set s. \<not> inClass (itemClass it) c \<Longrightarrow> matchItems its s = None"
proof (induction its arbitrary: s)
  case Nil
  then show ?case by simp
next
  case (Cons a its)
  show ?case
  proof (cases "a = it")
    case True
    have "takeWhile (inClass (itemClass it)) s = []"
      using Cons.prems(3) by (cases s) auto
    then show ?thesis using True Cons.prems(2) by (simp add: counts_0)
  next
    case False
    then have mem: "it \<in> set its" using Cons.prems(1) by simp
    have "matchItems its (drop k s) = None" for k
    proof (rule Cons.IH [OF mem Cons.prems(2)])
      show "\<forall>c \<in> set (drop k s). \<not> inClass (itemClass it) c"
        using Cons.prems(3) by (meson in_set_dropD)
    qed
    then show ?thesis by (simp add: firstSome_None)
  qed
qed

text \<open>\<^verbatim>\<open>/\s+/g\<close> matches the white space ahead, all of it.\<close>

lemma matchItems_whitespace:
  "matchItems [Item Space Plus] s =
     (if takeWhile isWhiteSpace s = [] then None
      else Some (length (takeWhile isWhiteSpace s), []))"
proof -
  have eq: "inClass Space = isWhiteSpace" by (rule ext) simp
  show ?thesis
  proof (cases "length (takeWhile isWhiteSpace s)")
    case 0
    then show ?thesis by (simp add: eq)
  next
    case (Suc n)
    have "[Suc 0..<Suc (Suc n)] = [Suc 0..<Suc n] @ [Suc n]" by simp
    then have rv: "rev [Suc 0..<Suc (Suc n)] = Suc n # rev [Suc 0..<Suc n]" by simp
    from Suc have ne: "takeWhile isWhiteSpace s \<noteq> []" by auto
    show ?thesis using ne Suc by (simp add: eq rv del: upt_Suc)
  qed
qed

lemma replaceLoop_singleSpaced:
  "singleSpaced s \<Longrightarrow> replaceLoop reWhitespace [Lit (js '' '')] prev s = s"
proof (induction s arbitrary: prev rule: singleSpaced.induct)
  case 1
  show ?case by (simp add: matchAt_def reWhitespace_def matchItems_whitespace)
next
  case (2 c)
  then show ?case
    by (auto simp add: matchAt_def reWhitespace_def matchItems_whitespace js_def)
next
  case (3 c d s)
  then have IH: "\<And>p. replaceLoop reWhitespace [Lit (js '' '')] p (d # s) = d # s" by simp
  show ?case
  proof (cases "isWhiteSpace c")
    case True
    with 3 have c: "c = ch CHR '' ''" and d: "\<not> isWhiteSpace d" by simp_all
    have "matchAt reWhitespace prev (c # d # s) = Some (1, [])"
      using True d by (simp add: matchAt_def reWhitespace_def matchItems_whitespace)
    then show ?thesis using IH c by (simp add: js_def)
  next
    case False
    then have "matchAt reWhitespace prev (c # d # s) = None"
      by (simp add: matchAt_def reWhitespace_def matchItems_whitespace)
    then show ?thesis using IH by simp
  qed
qed

lemma newline_lineTerminator: "isLineTerminator (ch CHR 0x0A)"
  by (simp add: isLineTerminator_def ch_def)

text \<open>Without an occurrence of the pattern, \<open>replace\<close> returns the text.\<close>

lemma replaceLoop_noOccurrence:
  "\<not> occursFrom re prev s \<Longrightarrow> replaceLoop re rep prev s = s"
proof (induction s arbitrary: prev)
  case Nil
  then have "matchAt re prev [] = None" by (cases "matchAt re prev []") auto
  then show ?case by simp
next
  case (Cons c cs)
  then have "matchAt re prev (c # cs) = None" and "\<not> occursFrom re (Some c) cs"
    by (cases "matchAt re prev (c # cs)"; auto)+
  then show ?case using Cons.IH by simp
qed

lemma replace_noOccurrence: "\<not> occurs re s \<Longrightarrow> replace s re rep = s"
  by (simp add: occurs_def replace_def replaceLoop_noOccurrence)

lemma normalizeTextForTTS_patternFree:
  assumes "patternFree settings t"
  shows "normalizeTextForTTS settings t = t"
proof -
  from assms have fb: "remove_footnotes settings \<Longrightarrow> \<not> occurs reFootnoteBracket t"
    and fp: "remove_footnotes settings \<Longrightarrow> \<not> occurs reFootnoteParen t"
    and sp: "normalize_whitespace settings \<Longrightarrow> singleSpaced t"
    and rest: "\<not> occurs reBold t" "\<not> occurs reItalic t" "\<not> occurs reLink t"
      "\<not> occurs reListMarker t" "\<not> occurs reBlankLines t"
      "\<not> occurs reSentenceBreak t" "\<not> occurs reParagraphBreak t"
    and trimmed: "trim t = t"
    by (auto simp: patternFree_def split: if_splits)
  have r3: "normalize_whitespace settings \<Longrightarrow> replace t reWhitespace [Lit (js '' '')] = t"
    unfolding replace_def using sp by (rule replaceLoop_singleSpaced)
  show ?thesis
    by (simp add: normalizeTextForTTS_def Let_def replace_noOccurrence fb fp r3 rest trimmed)
qed


text \<open>The collapse of white space, \<^verbatim>\<open>replace(/\s+/g, " ")\<close>, case by case.\<close>

lemma matchAt_whitespace:
  "matchAt reWhitespace prev s =
     (if takeWhile isWhiteSpace s = [] then None
      else Some (length (takeWhile isWhiteSpace s), []))"
  by (simp add: matchAt_def reWhitespace_def matchItems_whitespace del: matchItems.simps)

lemma collapse_Nil: "replaceLoop reWhitespace [Lit (js '' '')] prev [] = []"
  by (simp add: matchAt_whitespace)

lemma collapse_other:
  "\<not> isWhiteSpace c \<Longrightarrow>
   replaceLoop reWhitespace [Lit (js '' '')] prev (c # cs) =
     c # replaceLoop reWhitespace [Lit (js '' '')] (Some c) cs"
  by (simp add: matchAt_whitespace)

lemma collapse_space:
  assumes "isWhiteSpace c"
  shows "\<exists>p. replaceLoop reWhitespace [Lit (js '' '')] prev (c # cs) =
           ch CHR '' '' # replaceLoop reWhitespace [Lit (js '' '')] p (dropWhile isWhiteSpace cs)"
proof -
  let ?n = "length (takeWhile isWhiteSpace cs)"
  have m: "matchAt reWhitespace prev (c # cs) = Some (Suc ?n, [])"
    using assms by (simp add: matchAt_whitespace)
  have d: "drop ?n cs = dropWhile isWhiteSpace cs" by (simp add: dropWhile_eq_drop)
  show ?thesis
    using m d by (intro exI [of _ "Some ((c # cs) ! ?n)"]) (simp add: js_def)
qed

lemma collapse_head:
  "\<exists>tl. replaceLoop reWhitespace [Lit (js '' '')] prev (c # cs) =
          (if isWhiteSpace c then ch CHR '' '' else c) # tl"
proof (cases "isWhiteSpace c")
  case True
  from collapse_space [OF this, of prev cs] show ?thesis using True by auto
next
  case False
  then show ?thesis by (simp add: collapse_other del: replaceLoop.simps)
qed

lemma space_isWhiteSpace: "isWhiteSpace (ch CHR '' '')"
  by (simp add: isWhiteSpace_def ch_def)

lemma collapse_chars:
  "x \<in> set (replaceLoop reWhitespace [Lit (js '' '')] prev s) \<Longrightarrow>
   x = ch CHR '' '' \<or> (x \<in> set s \<and> \<not> isWhiteSpace x)"
proof (induction "length s" arbitrary: s prev rule: less_induct)
  case less
  show ?case
  proof (cases s)
    case Nil
    with less.prems show ?thesis by (simp add: collapse_Nil del: replaceLoop.simps)
  next
    case (Cons c cs)
    show ?thesis
    proof (cases "isWhiteSpace c")
      case True
      from collapse_space [OF True, of prev cs] obtain p where
        p: "replaceLoop reWhitespace [Lit (js '' '')] prev (c # cs) =
            ch CHR '' '' # replaceLoop reWhitespace [Lit (js '' '')] p (dropWhile isWhiteSpace cs)"
        by blast
      have len: "length (dropWhile isWhiteSpace cs) < length s"
        unfolding Cons using length_dropWhile_le [of isWhiteSpace cs] by simp
      from less.prems have "x = ch CHR '' '' \<or>
          x \<in> set (replaceLoop reWhitespace [Lit (js '' '')] p (dropWhile isWhiteSpace cs))"
        unfolding Cons p by simp
      then show ?thesis
      proof
        assume "x = ch CHR '' ''" then show ?thesis by simp
      next
        assume "x \<in> set (replaceLoop reWhitespace [Lit (js '' '')] p (dropWhile isWhiteSpace cs))"
        from less.hyps [OF len this] show ?thesis
          unfolding Cons using set_dropWhileD [of x isWhiteSpace cs] by auto
      qed
    next
      case False
      have len: "length cs < length s" unfolding Cons by simp
      from less.prems have "x = c \<or>
          x \<in> set (replaceLoop reWhitespace [Lit (js '' '')] (Some c) cs)"
        unfolding Cons by (simp add: collapse_other [OF False] del: replaceLoop.simps)
      then show ?thesis
      proof
        assume "x = c" then show ?thesis unfolding Cons using False by simp
      next
        assume "x \<in> set (replaceLoop reWhitespace [Lit (js '' '')] (Some c) cs)"
        from less.hyps [OF len this] show ?thesis unfolding Cons by auto
      qed
    qed
  qed
qed

lemma singleSpaced_other: "\<not> isWhiteSpace c \<Longrightarrow> singleSpaced (c # s) = singleSpaced s"
  by (cases s) simp_all

lemma singleSpaced_space:
  "singleSpaced (ch CHR '' '' # s) \<longleftrightarrow> (case s of [] \<Rightarrow> True | d # r \<Rightarrow> \<not> isWhiteSpace d) \<and> singleSpaced s"
  by (cases s) (auto simp: space_isWhiteSpace)

lemma collapse_singleSpaced:
  "singleSpaced (replaceLoop reWhitespace [Lit (js '' '')] prev s)"
proof (induction "length s" arbitrary: s prev rule: less_induct)
  case less
  show ?case
  proof (cases s)
    case Nil
    then show ?thesis by (simp add: collapse_Nil del: replaceLoop.simps)
  next
    case (Cons c cs)
    show ?thesis
    proof (cases "isWhiteSpace c")
      case True
      from collapse_space [OF True, of prev cs] obtain p where
        p: "replaceLoop reWhitespace [Lit (js '' '')] prev (c # cs) =
            ch CHR '' '' # replaceLoop reWhitespace [Lit (js '' '')] p (dropWhile isWhiteSpace cs)"
        by blast
      have len: "length (dropWhile isWhiteSpace cs) < length s"
        unfolding Cons using length_dropWhile_le [of isWhiteSpace cs] by simp
      have IH: "singleSpaced (replaceLoop reWhitespace [Lit (js '' '')] p (dropWhile isWhiteSpace cs))"
        using less.hyps [OF len] .
      have hd: "case replaceLoop reWhitespace [Lit (js '' '')] p (dropWhile isWhiteSpace cs) of
                  [] \<Rightarrow> True | d # r \<Rightarrow> \<not> isWhiteSpace d"
      proof (cases "dropWhile isWhiteSpace cs")
        case Nil
        show ?thesis unfolding Nil by (simp add: collapse_Nil del: replaceLoop.simps)
      next
        case (Cons d ds)
        then have nd: "\<not> isWhiteSpace d" using hd_dropWhile [of isWhiteSpace cs] by auto
        show ?thesis unfolding Cons by (simp add: collapse_other [OF nd] nd del: replaceLoop.simps)
      qed
      show ?thesis unfolding Cons p singleSpaced_space using IH hd by simp
    next
      case False
      have len: "length cs < length s" unfolding Cons by simp
      show ?thesis unfolding Cons collapse_other [OF False] singleSpaced_other [OF False]
        using less.hyps [OF len] .
    qed
  qed
qed


text \<open>Trimming: what it keeps and what it leaves at the ends.\<close>

lemma dropWhile_id: "(case s of [] \<Rightarrow> True | c # cs \<Rightarrow> \<not> P c) \<Longrightarrow> dropWhile P s = s"
  by (cases s) auto

lemma trim_parts:
  "\<exists>pre post. s = pre @ trim s @ post \<and> list_all isWhiteSpace pre"
proof -
  let ?a = "dropWhile isWhiteSpace s"
  have s: "s = takeWhile isWhiteSpace s @ ?a" by simp
  have "trim s @ rev (takeWhile isWhiteSpace (rev ?a)) =
        rev (takeWhile isWhiteSpace (rev ?a) @ dropWhile isWhiteSpace (rev ?a))"
    by (simp only: trim_def rev_append)
  also have "\<dots> = ?a" by simp
  finally have a: "?a = trim s @ rev (takeWhile isWhiteSpace (rev ?a))" by simp
  have "list_all isWhiteSpace (takeWhile isWhiteSpace s)"
    by (simp add: list_all_iff) (meson set_takeWhileD)
  moreover have "s = takeWhile isWhiteSpace s @ trim s @ rev (takeWhile isWhiteSpace (rev ?a))"
    using s a by metis
  ultimately show ?thesis by blast
qed

lemma trim_hd: "trim s = c # cs \<Longrightarrow> \<not> isWhiteSpace c"
proof -
  assume t: "trim s = c # cs"
  let ?a = "dropWhile isWhiteSpace s"
  let ?b = "dropWhile isWhiteSpace (rev ?a)"
  have b: "rev ?b = c # cs" using t by (simp add: trim_def)
  then have ne: "?b \<noteq> []" by auto
  then have ane: "?a \<noteq> []" by (metis dropWhile.simps(1) rev.simps(1))
  then obtain x xs where a: "?a = x # xs" by (cases ?a) auto
  then have nx: "\<not> isWhiteSpace x" using hd_dropWhile [of isWhiteSpace s] ane by auto
  have "rev ?a = rev xs @ [x]" using a by simp
  then have "?b = dropWhile isWhiteSpace (rev xs) @ [x]"
    using nx by (simp add: dropWhile_append3)
  then have "rev ?b = x # rev (dropWhile isWhiteSpace (rev xs))" by simp
  with b have "c = x" by simp
  with nx show ?thesis by simp
qed

lemma trim_last: "trim s \<noteq> [] \<Longrightarrow> \<not> isWhiteSpace (last (trim s))"
proof -
  assume ne: "trim s \<noteq> []"
  let ?b = "dropWhile isWhiteSpace (rev (dropWhile isWhiteSpace s))"
  have t: "trim s = rev ?b" by (simp add: trim_def)
  with ne have bne: "?b \<noteq> []" by simp
  then have "\<not> isWhiteSpace (hd ?b)" by (rule hd_dropWhile)
  moreover have "last (rev ?b) = hd ?b" using bne by (simp add: last_rev)
  ultimately show ?thesis using t by simp
qed

lemma trim_trim: "trim (trim s) = trim s"
proof (cases "trim s")
  case Nil
  show ?thesis unfolding Nil by (simp add: trim_def)
next
  case (Cons c cs)
  then have hd: "\<not> isWhiteSpace c" by (rule trim_hd)
  have "trim s \<noteq> []" using Cons by simp
  then have "\<not> isWhiteSpace (last (trim s))" by (rule trim_last)
  then have lst: "\<not> isWhiteSpace (last (c # cs))" using Cons by simp
  have 1: "dropWhile isWhiteSpace (c # cs) = c # cs" using hd by simp
  have "rev (c # cs) \<noteq> []" by simp
  moreover have "hd (rev (c # cs)) = last (c # cs)" by (simp add: hd_rev)
  ultimately have 2: "dropWhile isWhiteSpace (rev (c # cs)) = rev (c # cs)"
    using lst by (cases "rev (c # cs)") auto
  show ?thesis unfolding Cons unfolding trim_def 1 2 by simp
qed

lemma singleSpaced_append: "singleSpaced (xs @ ys) \<Longrightarrow> singleSpaced xs \<and> singleSpaced ys"
proof (induction xs rule: singleSpaced.induct)
  case 1
  then show ?case by simp
next
  case (2 c)
  then show ?case by (cases ys) (auto split: if_splits)
next
  case (3 c d s)
  then show ?case by (auto split: if_splits)
qed

lemma singleSpaced_trim: "singleSpaced s \<Longrightarrow> singleSpaced (trim s)"
proof -
  assume s: "singleSpaced s"
  from trim_parts [of s] obtain pre post where p: "s = pre @ trim s @ post" by blast
  with s have "singleSpaced (pre @ trim s @ post)" by simp
  then have "singleSpaced (trim s @ post)" using singleSpaced_append by blast
  then show ?thesis using singleSpaced_append by blast
qed

lemma set_trim: "set (trim s) \<subseteq> set s"
proof -
  from trim_parts [of s] obtain pre post where p: "s = pre @ trim s @ post" by blast
  have "set (trim s) \<subseteq> set (pre @ trim s @ post)" by auto
  then show ?thesis using p by simp
qed


text \<open>Where a pattern cannot occur.\<close>

lemma occursFrom_absent:
  "it \<in> set (items re) \<Longrightarrow> atLeastOne (itemQuantifier it) \<Longrightarrow>
   \<forall>c \<in> set s. \<not> inClass (itemClass it) c \<Longrightarrow> \<not> occursFrom re prev s"
proof (induction s arbitrary: prev)
  case Nil
  then show ?case using matchItems_absent [of it "items re" "[]"] by (simp add: matchAt_def)
next
  case (Cons c cs)
  have "matchItems (items re) (c # cs) = None"
    using Cons.prems by (intro matchItems_absent [of it]) auto
  then have "matchAt re prev (c # cs) = None" by (simp add: matchAt_def)
  moreover have "\<not> occursFrom re (Some c) cs" using Cons by simp
  ultimately show ?case by simp
qed

lemma occurs_absent:
  "it \<in> set (items re) \<Longrightarrow> atLeastOne (itemQuantifier it) \<Longrightarrow>
   \<forall>c \<in> set s. \<not> inClass (itemClass it) c \<Longrightarrow> \<not> occurs re s"
  unfolding occurs_def by (rule occursFrom_absent)

lemma occursFrom_lineStart_inside:
  "lineStart re \<Longrightarrow> \<not> isLineTerminator p \<Longrightarrow> \<forall>c \<in> set s. \<not> isLineTerminator c \<Longrightarrow>
   \<not> occursFrom re (Some p) s"
  by (induction s arbitrary: p) (simp_all add: matchAt_def)

lemma marker_not_whiteSpace:
  "c \<in> set [ch CHR ''-'', ch CHR ''*'', ch CHR ''+''] \<Longrightarrow> \<not> isWhiteSpace c"
  by (auto simp: isWhiteSpace_def ch_def)

lemma lineTerminator_whiteSpace: "isLineTerminator c \<Longrightarrow> isWhiteSpace c"
  by (auto simp: isWhiteSpace_def isLineTerminator_def)

lemma matchItems_marker:
  assumes "\<not> startsWithListMarker s"
  shows "matchItems [Item (OneOf [ch CHR ''-'', ch CHR ''*'', ch CHR ''+'']) One, Item Space Plus] s
         = None"
proof (cases s)
  case Nil
  then show ?thesis by simp
next
  case (Cons c cs)
  show ?thesis
  proof (cases "c \<in> set [ch CHR ''-'', ch CHR ''*'', ch CHR ''+'']")
    case False
    then show ?thesis unfolding Cons by simp
  next
    case True
    then have n: "takeWhile (inClass (OneOf [ch CHR ''-'', ch CHR ''*'', ch CHR ''+''])) (c # cs) \<noteq> []"
      by simp
    from True assms have "takeWhile isWhiteSpace cs = []" unfolding Cons by (cases cs) auto
    then have "matchItems [Item Space Plus] cs = None"
      by (simp add: matchItems_whitespace del: matchItems.simps)
    then show ?thesis unfolding Cons using n
      by (simp del: matchItems.simps(2) add: matchItems.simps(2) [of "Item (OneOf xs) One" for xs])
  qed
qed

lemma matchItems_listMarker_none:
  assumes "\<not> startsWithListMarker (dropWhile isWhiteSpace s)"
  shows "matchItems (items reListMarker) s = None"
proof -
  let ?rest = "[Item (OneOf [ch CHR ''-'', ch CHR ''*'', ch CHR ''+'']) One, Item Space Plus]"
  let ?n = "length (takeWhile isWhiteSpace s)"
  have none: "matchItems ?rest (drop k s) = None" if "k \<le> ?n" for k
  proof (rule matchItems_marker)
    show "\<not> startsWithListMarker (drop k s)"
    proof (cases "k = ?n")
      case True
      then show ?thesis using assms by (simp add: dropWhile_eq_drop)
    next
      case False
      with that have lt: "k < ?n" by simp
      then have "takeWhile isWhiteSpace s ! k = s ! k" by (rule takeWhile_nth)
      moreover have "takeWhile isWhiteSpace s ! k \<in> set (takeWhile isWhiteSpace s)"
        using lt by simp
      ultimately have ws: "isWhiteSpace (s ! k)" by (metis set_takeWhileD)
      have "k < length s" using lt length_takeWhile_le [of isWhiteSpace s] by simp
      then have "drop k s = s ! k # drop (Suc k) s" by (simp add: Cons_nth_drop_Suc)
      then show ?thesis using ws marker_not_whiteSpace
        by (cases "drop (Suc k) s") auto
    qed
  qed
  have eq: "inClass Space = isWhiteSpace" by (rule ext) simp
  have "firstSome
       (\<lambda>k. map_option (\<lambda>(len, cap). (k + len, if isGroup (Item Space Star) then take k s else cap))
              (matchItems ?rest (drop k s)))
       (counts Star ?n) = None"
  proof (rule firstSome_None)
    fix k
    assume "k \<in> set (counts Star ?n)"
    then have "k \<le> ?n" by auto
    from none [OF this]
    show "map_option (\<lambda>(len, cap). (k + len, if isGroup (Item Space Star) then take k s else cap))
              (matchItems ?rest (drop k s)) = None"
      by (simp del: matchItems.simps)
  qed
  then show ?thesis by (simp add: reListMarker_def eq del: matchItems.simps(2)
      add: matchItems.simps(2) [of "Item Space Star"])
qed

lemma occurs_listMarker:
  assumes "\<forall>c \<in> set s. \<not> isLineTerminator c"
    and "\<not> startsWithListMarker (dropWhile isWhiteSpace s)"
  shows "\<not> occurs reListMarker s"
proof (cases s)
  case Nil
  have "matchItems (items reListMarker) [] = None"
    by (rule matchItems_listMarker_none) simp
  then show ?thesis unfolding Nil occurs_def by (simp add: matchAt_def)
next
  case (Cons c cs)
  have "matchItems (items reListMarker) (c # cs) = None"
    using assms(2) unfolding Cons by (rule matchItems_listMarker_none)
  then have "matchAt reListMarker None (c # cs) = None" by (simp add: matchAt_def)
  moreover have "\<not> occursFrom reListMarker (Some c) cs"
    using assms(1) unfolding Cons
    by (intro occursFrom_lineStart_inside) (simp_all add: reListMarker_def)
  ultimately show ?thesis unfolding Cons occurs_def by simp
qed

text \<open>The collapse of white space does not make a list marker at the start.\<close>

lemma collapse_marker_tail:
  assumes "\<not> isWhiteSpace d"
    and "startsWithListMarker (replaceLoop reWhitespace [Lit (js '' '')] p (d # ds))"
  shows "startsWithListMarker (d # ds)"
proof (cases ds)
  case Nil
  with assms show ?thesis
    by (simp add: collapse_other collapse_Nil del: replaceLoop.simps)
next
  case (Cons e es)
  from collapse_head [of "Some d" e es] obtain tl where
    tl: "replaceLoop reWhitespace [Lit (js '' '')] (Some d) (e # es) =
         (if isWhiteSpace e then ch CHR '' '' else e) # tl"
    by blast
  from assms(2) have "startsWithListMarker (d # (if isWhiteSpace e then ch CHR '' '' else e) # tl)"
    unfolding Cons collapse_other [OF assms(1)] tl .
  then show ?thesis unfolding Cons by (auto simp: space_isWhiteSpace split: if_splits)
qed

lemma dropWhile_head: "case dropWhile P xs of [] \<Rightarrow> True | d # ds \<Rightarrow> \<not> P d"
  by (induction xs) simp_all

lemma collapse_marker_front:
  assumes "startsWithListMarker
             (dropWhile isWhiteSpace (replaceLoop reWhitespace [Lit (js '' '')] p a))"
    and "case a of [] \<Rightarrow> True | d # ds \<Rightarrow> \<not> isWhiteSpace d"
  shows "startsWithListMarker a"
proof (cases a)
  case Nil
  from assms(1) show ?thesis unfolding Nil collapse_Nil by simp
next
  case (Cons d ds)
  with assms(2) have nd: "\<not> isWhiteSpace d" by simp
  have "dropWhile isWhiteSpace (d # replaceLoop reWhitespace [Lit (js '' '')] (Some d) ds) =
        d # replaceLoop reWhitespace [Lit (js '' '')] (Some d) ds"
    using nd by simp
  with assms(1) have "startsWithListMarker (replaceLoop reWhitespace [Lit (js '' '')] p (d # ds))"
    unfolding Cons collapse_other [OF nd] by simp
  with nd show ?thesis unfolding Cons by (rule collapse_marker_tail)
qed

lemma collapse_marker:
  assumes "startsWithListMarker
             (dropWhile isWhiteSpace (replaceLoop reWhitespace [Lit (js '' '')] prev s))"
  shows "startsWithListMarker (dropWhile isWhiteSpace s)"
proof (cases s)
  case Nil
  from assms show ?thesis unfolding Nil collapse_Nil by simp
next
  case (Cons c cs)
  show ?thesis
  proof (cases "isWhiteSpace c")
    case False
    have a: "case c # cs of [] \<Rightarrow> True | d # ds \<Rightarrow> \<not> isWhiteSpace d" using False by simp
    from assms have "startsWithListMarker (c # cs)"
      unfolding Cons using a by (rule collapse_marker_front)
    then show ?thesis unfolding Cons using False by simp
  next
    case True
    from collapse_space [OF True, of prev cs] obtain p where
      p: "replaceLoop reWhitespace [Lit (js '' '')] prev (c # cs) =
          ch CHR '' '' # replaceLoop reWhitespace [Lit (js '' '')] p (dropWhile isWhiteSpace cs)"
      by blast
    let ?a = "dropWhile isWhiteSpace cs"
    have a: "case ?a of [] \<Rightarrow> True | d # ds \<Rightarrow> \<not> isWhiteSpace d"
      by (rule dropWhile_head)
    have "dropWhile isWhiteSpace
            (ch CHR '' '' # replaceLoop reWhitespace [Lit (js '' '')] p ?a) =
          dropWhile isWhiteSpace (replaceLoop reWhitespace [Lit (js '' '')] p ?a)"
      using space_isWhiteSpace by simp
    with assms have "startsWithListMarker
        (dropWhile isWhiteSpace (replaceLoop reWhitespace [Lit (js '' '')] p ?a))"
      unfolding Cons p by simp
    then have "startsWithListMarker ?a" using a by (rule collapse_marker_front)
    moreover have "dropWhile isWhiteSpace (c # cs) = ?a" using True by simp
    ultimately show ?thesis unfolding Cons by simp
  qed
qed

lemma collapse_no_lineTerminator:
  assumes "c \<in> set (replaceLoop reWhitespace [Lit (js '' '')] prev s)"
  shows "\<not> isLineTerminator c"
proof
  assume lt: "isLineTerminator c"
  then have "isWhiteSpace c" by (rule lineTerminator_whiteSpace)
  with collapse_chars [OF assms] have "c = ch CHR '' ''" by blast
  with lt show False by (simp add: isLineTerminator_def ch_def)
qed

lemma trim_marker:
  assumes "startsWithListMarker (dropWhile isWhiteSpace (trim s))"
  shows "startsWithListMarker (dropWhile isWhiteSpace s)"
proof (cases "trim s")
  case Nil
  with assms show ?thesis by simp
next
  case (Cons c cs)
  then have nc: "\<not> isWhiteSpace c" by (rule trim_hd)
  from assms have m: "startsWithListMarker (c # cs)" unfolding Cons using nc by simp
  from trim_parts [of s] obtain pre post where
    p: "s = pre @ trim s @ post" and ws: "list_all isWhiteSpace pre"
    by blast
  have "dropWhile isWhiteSpace (pre @ (trim s @ post)) = dropWhile isWhiteSpace (trim s @ post)"
    using ws by (intro dropWhile_append2) (simp add: list_all_iff)
  also have "\<dots> = c # cs @ post" unfolding Cons using nc by simp
  finally have "dropWhile isWhiteSpace (pre @ trim s @ post) = c # cs @ post" .
  then have d: "dropWhile isWhiteSpace s = c # cs @ post" using p by simp
  from m show ?thesis unfolding d by (cases cs) simp_all
qed

lemma space_not_markup:
  "ch CHR '' '' \<noteq> ch CHR ''*''" "ch CHR '' '' \<noteq> ch CHR ''[''" "ch CHR '' '' \<noteq> ch CHR ''(''"
  by (simp_all add: ch_def)

text \<open>Patterns that need a character the text does not have.\<close>

lemma occurs_no_bracket:
  assumes "\<forall>c \<in> set v. c \<noteq> ch CHR ''[''"
  shows "\<not> occurs reFootnoteBracket v" and "\<not> occurs reLink v"
proof -
  show "\<not> occurs reFootnoteBracket v"
    by (rule occurs_absent [of "Item (Ch (ch CHR ''['')) One"])
       (use assms in \<open>simp_all add: reFootnoteBracket_def\<close>)
  show "\<not> occurs reLink v"
    by (rule occurs_absent [of "Item (Ch (ch CHR ''['')) One"])
       (use assms in \<open>simp_all add: reLink_def\<close>)
qed

lemma occurs_no_paren:
  assumes "\<forall>c \<in> set v. c \<noteq> ch CHR ''(''"
  shows "\<not> occurs reFootnoteParen v"
  by (rule occurs_absent [of "Item (Ch (ch CHR ''('')) One"])
     (use assms in \<open>simp_all add: reFootnoteParen_def\<close>)

lemma occurs_no_star:
  assumes "\<forall>c \<in> set v. c \<noteq> ch CHR ''*''"
  shows "\<not> occurs reBold v" and "\<not> occurs reItalic v"
proof -
  show "\<not> occurs reBold v"
    by (rule occurs_absent [of "Item (Ch (ch CHR ''*'')) One"])
       (use assms in \<open>simp_all add: reBold_def\<close>)
  show "\<not> occurs reItalic v"
    by (rule occurs_absent [of "Item (Ch (ch CHR ''*'')) One"])
       (use assms in \<open>simp_all add: reItalic_def\<close>)
qed

lemma occurs_no_newline:
  assumes "\<forall>c \<in> set v. \<not> isLineTerminator c"
  shows "\<not> occurs reBlankLines v" and "\<not> occurs reSentenceBreak v"
    and "\<not> occurs reParagraphBreak v"
proof -
  from assms have nl: "\<forall>c \<in> set v. c \<noteq> ch CHR 0x0A"
    using newline_lineTerminator by blast
  show "\<not> occurs reBlankLines v"
    by (rule occurs_absent [of "Item (Ch (ch CHR 0x0A)) (AtLeast 3)"])
       (use nl in \<open>simp_all add: reBlankLines_def\<close>)
  show "\<not> occurs reSentenceBreak v"
    by (rule occurs_absent [of "Item (Ch (ch CHR 0x0A)) One"])
       (use nl in \<open>simp_all add: reSentenceBreak_def\<close>)
  show "\<not> occurs reParagraphBreak v"
    by (rule occurs_absent [of "Item (Ch (ch CHR 0x0A)) One"])
       (use nl in \<open>simp_all add: reParagraphBreak_def\<close>)
qed

text \<open>
  The collapse of white space and the trimming keep a text without markup characters
  clear of them, and no pattern occurs in a text that is clear of them.
\<close>

lemma clearOf_collapse:
  assumes "markupFree settings t"
  shows "clearOf settings (replace t reWhitespace [Lit (js '' '')])"
proof -
  let ?u1 = "replace t reWhitespace [Lit (js '' '')]"
  from assms have star: "\<forall>c \<in> set t. c \<noteq> ch CHR ''*''"
    and bracket: "\<forall>c \<in> set t. c \<noteq> ch CHR ''[''"
    and paren: "remove_footnotes settings \<Longrightarrow> \<forall>c \<in> set t. c \<noteq> ch CHR ''(''"
    and marker: "\<not> startsWithListMarker (dropWhile isWhiteSpace t)"
    by (auto simp: markupFree_def list_all_iff split: if_splits)
  have in1: "c = ch CHR '' '' \<or> c \<in> set t" if "c \<in> set ?u1" for c
  proof -
    from that have "c \<in> set (replaceLoop reWhitespace [Lit (js '' '')] None t)"
      by (simp only: replace_def)
    from collapse_chars [OF this] show ?thesis by auto
  qed
  have a: "\<forall>c \<in> set ?u1. c \<noteq> ch CHR ''*''"
  proof
    fix c assume "c \<in> set ?u1"
    from in1 [OF this] show "c \<noteq> ch CHR ''*''" using star space_not_markup(1) by auto
  qed
  have b: "\<forall>c \<in> set ?u1. c \<noteq> ch CHR ''[''"
  proof
    fix c assume "c \<in> set ?u1"
    from in1 [OF this] show "c \<noteq> ch CHR ''[''" using bracket space_not_markup(2) by auto
  qed
  have c: "\<forall>c \<in> set ?u1. \<not> isLineTerminator c"
  proof
    fix c assume "c \<in> set ?u1"
    then have "c \<in> set (replaceLoop reWhitespace [Lit (js '' '')] None t)"
      by (simp only: replace_def)
    then show "\<not> isLineTerminator c" by (rule collapse_no_lineTerminator)
  qed
  have d: "\<forall>c \<in> set ?u1. c \<noteq> ch CHR ''(''" if rf: "remove_footnotes settings"
  proof
    fix c assume "c \<in> set ?u1"
    from in1 [OF this] show "c \<noteq> ch CHR ''(''" using paren [OF rf] space_not_markup(3) by auto
  qed
  have e: "\<not> startsWithListMarker (dropWhile isWhiteSpace ?u1)"
  proof
    assume "startsWithListMarker (dropWhile isWhiteSpace ?u1)"
    then have "startsWithListMarker
        (dropWhile isWhiteSpace (replaceLoop reWhitespace [Lit (js '' '')] None t))"
      by (simp only: replace_def)
    then have "startsWithListMarker (dropWhile isWhiteSpace t)" by (rule collapse_marker)
    with marker show False by simp
  qed
  show ?thesis unfolding clearOf_def using a b c d e by auto
qed

lemma clearOf_trim:
  assumes "clearOf settings v"
  shows "clearOf settings (trim v)"
proof -
  have sub: "c \<in> set v" if "c \<in> set (trim v)" for c
    using set_trim [of v] that by blast
  have "\<not> startsWithListMarker (dropWhile isWhiteSpace (trim v))"
    using assms trim_marker [of v] unfolding clearOf_def by blast
  then show ?thesis using assms sub unfolding clearOf_def by blast
qed

lemma clearOf_markupFree:
  assumes "markupFree settings t"
  shows "\<not> occurs reFootnoteBracket t"
    and "remove_footnotes settings \<Longrightarrow> \<not> occurs reFootnoteParen t"
proof -
  from assms have bracket: "\<forall>c \<in> set t. c \<noteq> ch CHR ''[''"
    and paren: "remove_footnotes settings \<Longrightarrow> \<forall>c \<in> set t. c \<noteq> ch CHR ''(''"
    by (auto simp: markupFree_def list_all_iff split: if_splits)
  show "\<not> occurs reFootnoteBracket t" using bracket by (rule occurs_no_bracket)
  show "\<not> occurs reFootnoteParen t" if "remove_footnotes settings"
    using paren [OF that] by (rule occurs_no_paren)
qed

lemma clearOf_occurs:
  assumes "clearOf settings v"
  shows "\<not> occurs reFootnoteBracket v"
    and "remove_footnotes settings \<Longrightarrow> \<not> occurs reFootnoteParen v"
    and "\<not> occurs reBold v" and "\<not> occurs reItalic v" and "\<not> occurs reLink v"
    and "\<not> occurs reListMarker v" and "\<not> occurs reBlankLines v"
    and "\<not> occurs reSentenceBreak v" and "\<not> occurs reParagraphBreak v"
proof -
  from assms have star: "\<forall>c \<in> set v. c \<noteq> ch CHR ''*''"
    and bracket: "\<forall>c \<in> set v. c \<noteq> ch CHR ''[''"
    and lt: "\<forall>c \<in> set v. \<not> isLineTerminator c"
    and paren: "remove_footnotes settings \<Longrightarrow> \<forall>c \<in> set v. c \<noteq> ch CHR ''(''"
    and marker: "\<not> startsWithListMarker (dropWhile isWhiteSpace v)"
    unfolding clearOf_def by blast+
  show "\<not> occurs reFootnoteBracket v" using bracket by (rule occurs_no_bracket)
  show "\<not> occurs reLink v" using bracket by (rule occurs_no_bracket)
  show "\<not> occurs reFootnoteParen v" if "remove_footnotes settings"
    using paren [OF that] by (rule occurs_no_paren)
  show "\<not> occurs reBold v" using star by (rule occurs_no_star)
  show "\<not> occurs reItalic v" using star by (rule occurs_no_star)
  show "\<not> occurs reListMarker v" using lt marker by (rule occurs_listMarker)
  show "\<not> occurs reBlankLines v" using lt by (rule occurs_no_newline)
  show "\<not> occurs reSentenceBreak v" using lt by (rule occurs_no_newline)
  show "\<not> occurs reParagraphBreak v" using lt by (rule occurs_no_newline)
qed

text \<open>
  On a text without markup characters the normalizer with white-space normalization
  collapses the white space and trims, and the result is free of the patterns.
\<close>

lemma normalizeTextForTTS_markupFree:
  assumes on: "clean_markdown settings" and nw: "normalize_whitespace settings"
    and mf: "markupFree settings t"
  shows "normalizeTextForTTS settings t = trim (replace t reWhitespace [Lit (js '' '')])"
    and "patternFree settings (trim (replace t reWhitespace [Lit (js '' '')]))"
proof -
  let ?u1 = "replace t reWhitespace [Lit (js '' '')]"
  let ?u = "trim ?u1"
  have c1: "clearOf settings ?u1" using mf by (rule clearOf_collapse)
  then have c2: "clearOf settings ?u" by (rule clearOf_trim)
  have foot: "(if remove_footnotes settings
               then replace (replace t reFootnoteBracket []) reFootnoteParen [] else t) = t"
  proof (cases "remove_footnotes settings")
    case True
    have "replace t reFootnoteBracket [] = t"
      using clearOf_markupFree(1) [OF mf] by (rule replace_noOccurrence)
    moreover have "replace t reFootnoteParen [] = t"
      using clearOf_markupFree(2) [OF mf True] by (rule replace_noOccurrence)
    ultimately show ?thesis using True by simp
  next
    case False
    then show ?thesis by simp
  qed
  have r4: "replace ?u1 reBold [Group1] = ?u1"
    using clearOf_occurs(3) [OF c1] by (rule replace_noOccurrence)
  have r5: "replace ?u1 reItalic [Group1] = ?u1"
    using clearOf_occurs(4) [OF c1] by (rule replace_noOccurrence)
  have r6: "replace ?u1 reLink [Group1] = ?u1"
    using clearOf_occurs(5) [OF c1] by (rule replace_noOccurrence)
  have r7: "replace ?u1 reListMarker [] = ?u1"
    using clearOf_occurs(6) [OF c1] by (rule replace_noOccurrence)
  have r8: "replace ?u1 reBlankLines [Lit [ch CHR 0x0A, ch CHR 0x0A]] = ?u1"
    using clearOf_occurs(7) [OF c1] by (rule replace_noOccurrence)
  have r9: "replace ?u1 reSentenceBreak [Group1, Lit (js '' '')] = ?u1"
    using clearOf_occurs(8) [OF c1] by (rule replace_noOccurrence)
  have r10: "replace ?u1 reParagraphBreak [Lit (js ''. '')] = ?u1"
    using clearOf_occurs(9) [OF c1] by (rule replace_noOccurrence)
  show "normalizeTextForTTS settings t = ?u"
    unfolding normalizeTextForTTS_def Let_def foot
    using on nw by (simp only: if_True if_False not_True_eq_False r4 r5 r6 r7 r8 r9 r10)
  have sp: "singleSpaced ?u"
    unfolding replace_def by (intro singleSpaced_trim collapse_singleSpaced)
  have tt: "trim ?u = ?u" by (rule trim_trim)
  show "patternFree settings ?u"
    unfolding patternFree_def
    using sp tt nw clearOf_occurs [OF c2]
    by (cases "remove_footnotes settings")
       (simp_all only: if_True if_False simp_thms True_implies_equals)
qed

text \<open>
  A match of a sequence: the repetitions of its first item and the match of the rest;
  its length lies within the text and is at least the length of the capture plus the
  least length of the other items; it contains the character of every item that asks
  for one; and a capture group at the front captures characters of its class.
\<close>

lemma firstSome_Some: "firstSome f xs = Some y \<Longrightarrow> \<exists>x \<in> set xs. f x = Some y"
  by (induction xs) (auto split: option.splits)

lemma counts_bounds: "k \<in> set (counts q n) \<Longrightarrow> minCount q \<le> k \<and> k \<le> n"
  by (cases q) (auto split: if_splits)

lemma matchItems_Cons:
  assumes "matchItems (it # its) s = Some (len, cap)"
  shows "\<exists>k len' cap'. minCount (itemQuantifier it) \<le> k \<and>
           k \<le> length (takeWhile (inClass (itemClass it)) s) \<and>
           matchItems its (drop k s) = Some (len', cap') \<and>
           len = k + len' \<and> cap = (if isGroup it then take k s else cap')"
proof -
  from assms obtain k where
    k: "k \<in> set (counts (itemQuantifier it) (length (takeWhile (inClass (itemClass it)) s)))"
    and m: "map_option (\<lambda>(len, cap). (k + len, if isGroup it then take k s else cap))
              (matchItems its (drop k s)) = Some (len, cap)"
    using firstSome_Some
      [of "\<lambda>k. map_option (\<lambda>(len, cap). (k + len, if isGroup it then take k s else cap))
              (matchItems its (drop k s))"
          "counts (itemQuantifier it) (length (takeWhile (inClass (itemClass it)) s))"
          "(len, cap)"]
    by auto
  from m obtain len' cap' where "matchItems its (drop k s) = Some (len', cap')"
    and "len = k + len'" and "cap = (if isGroup it then take k s else cap')"
    by (cases "matchItems its (drop k s)") auto
  then show ?thesis using counts_bounds [OF k] by blast
qed

lemma takeWhile_length_le: "length (takeWhile P s) \<le> length s"
  by (induction s) auto

lemma matchItems_length: "matchItems its s = Some (len, cap) \<Longrightarrow> len \<le> length s"
proof (induction its arbitrary: s len cap)
  case Nil
  then show ?case by simp
next
  case (Cons it its)
  from matchItems_Cons [OF Cons.prems] obtain k len' cap' where
    k: "k \<le> length (takeWhile (inClass (itemClass it)) s)"
    and m: "matchItems its (drop k s) = Some (len', cap')" and l: "len = k + len'"
    by blast
  from Cons.IH [OF m] have "len' \<le> length s - k" by simp
  moreover have "k \<le> length s" using k takeWhile_length_le [of "inClass (itemClass it)" s] by simp
  ultimately show ?case using l by simp
qed

lemma matchItems_minLength:
  "matchItems its s = Some (len, cap) \<Longrightarrow> length cap + minLength its \<le> len"
proof (induction its arbitrary: s len cap)
  case Nil
  then show ?case by simp
next
  case (Cons it its)
  from matchItems_Cons [OF Cons.prems] obtain k len' cap' where
    mk: "minCount (itemQuantifier it) \<le> k"
    and k: "k \<le> length (takeWhile (inClass (itemClass it)) s)"
    and m: "matchItems its (drop k s) = Some (len', cap')" and l: "len = k + len'"
    and c: "cap = (if isGroup it then take k s else cap')"
    by blast
  from Cons.IH [OF m] have ih: "length cap' + minLength its \<le> len'" .
  have ks: "k \<le> length s" using k takeWhile_length_le [of "inClass (itemClass it)" s] by simp
  show ?case
  proof (cases "isGroup it")
    case True
    then have "length cap = k" using c ks by simp
    then show ?thesis using True ih l by simp
  next
    case False
    then show ?thesis using c ih l mk by simp
  qed
qed

lemma matchItems_contains:
  assumes "it \<in> set its" and "itemClass it = Ch a" and "0 < minCount (itemQuantifier it)"
    and "matchItems its s = Some (len, cap)"
  shows "a \<in> set (take len s)"
  using assms(1,4)
proof (induction its arbitrary: s len cap)
  case Nil
  then show ?case by simp
next
  case (Cons b its)
  from matchItems_Cons [OF Cons.prems(2)] obtain k len' cap' where
    mk: "minCount (itemQuantifier b) \<le> k"
    and k: "k \<le> length (takeWhile (inClass (itemClass b)) s)"
    and m: "matchItems its (drop k s) = Some (len', cap')" and l: "len = k + len'"
    by blast
  show ?case
  proof (cases "b = it")
    case True
    then have k0: "0 < k" using mk assms(3) by simp
    then have "takeWhile (inClass (Ch a)) s \<noteq> []" using k True assms(2) by auto
    then obtain c cs where s: "s = c # cs" and "c = a" by (cases s) (auto split: if_splits)
    then show ?thesis using k0 l by (cases k) auto
  next
    case False
    then have "it \<in> set its" using Cons.prems(1) by simp
    from Cons.IH [OF this m] have "a \<in> set (take len' (drop k s))" .
    then have "a \<in> set (drop k (take (k + len') s))" by (simp add: drop_take add.commute)
    then show ?thesis unfolding l by (meson in_set_dropD)
  qed
qed

lemma matchItems_group_first:
  assumes "matchItems (Group c q # its) s = Some (len, cap)"
  shows "\<forall>x \<in> set cap. inClass c x"
proof -
  from matchItems_Cons [OF assms] obtain k where
    k: "k \<le> length (takeWhile (inClass c) s)" and c: "cap = take k s"
    by auto
  have "take k s = take k (takeWhile (inClass c) s)"
    using k by (metis append_eq_conv_conj takeWhile_dropWhile_id take_append min.absorb2 take_take append_Nil2 diff_is_0_eq take_0)
  then show ?thesis unfolding c by (metis in_set_takeD set_takeWhileD)
qed

text \<open>
  Counting the code units of a kind before and after \<open>replace\<close>: if no match is
  replaced by more of them than it has, the text does not gain any; if every match is
  replaced by fewer, a text that keeps its count has no occurrence of the pattern.
\<close>

lemma count_take_drop:
  "length (filter P (take n s)) + length (filter P (drop n s)) = length (filter P s)"
proof -
  have "filter P s = filter P (take n s @ drop n s)" by simp
  then show ?thesis by (simp only: filter_append length_append)
qed

lemma replaceLoop_count_le:
  assumes ok: "\<And>prev s len cap. matchAt re prev s = Some (len, cap) \<Longrightarrow>
     length (filter P (expand rep cap)) \<le> length (filter P (take len s))"
  shows "length (filter P (replaceLoop re rep prev s)) \<le> length (filter P s)"
proof (induction "length s" arbitrary: s prev rule: less_induct)
  case less
  show ?case
  proof (cases s)
    case Nil
    show ?thesis
    proof (cases "matchAt re prev []")
      case None
      then show ?thesis unfolding Nil by simp
    next
      case (Some r)
      obtain len cap where r: "r = (len, cap)" by (cases r)
      from ok [OF Some [unfolded r]] show ?thesis unfolding Nil using Some r by simp
    qed
  next
    case (Cons c cs)
    show ?thesis
    proof (cases "matchAt re prev (c # cs)")
      case None
      have "length (filter P (replaceLoop re rep (Some c) cs)) \<le> length (filter P cs)"
        by (rule less) (simp add: Cons)
      then show ?thesis unfolding Cons using None by simp
    next
      case (Some r)
      obtain len cap where r: "r = (len, cap)" by (cases r)
      note m = Some [unfolded r]
      from ok [OF m]
      have e: "length (filter P (expand rep cap)) \<le> length (filter P (take len (c # cs)))" .
      show ?thesis
      proof (cases "len = 0")
        case True
        have "length (filter P (replaceLoop re rep (Some c) cs)) \<le> length (filter P cs)"
          by (rule less) (simp add: Cons)
        then show ?thesis unfolding Cons using m True e by simp
      next
        case False
        have "length (filter P (replaceLoop re rep (Some ((c # cs) ! (len - 1)))
                  (drop len (c # cs)))) \<le> length (filter P (drop len (c # cs)))"
          by (rule less) (use False in \<open>simp add: Cons\<close>)
        then have "length (filter P (expand rep cap @
              replaceLoop re rep (Some ((c # cs) ! (len - 1))) (drop len (c # cs))))
            \<le> length (filter P (c # cs))"
          using e count_take_drop [of P len "c # cs"] by (simp only: filter_append length_append)
        moreover have "replaceLoop re rep prev (c # cs) =
            expand rep cap @ replaceLoop re rep (Some ((c # cs) ! (len - 1))) (drop len (c # cs))"
          using m False by (simp only: replaceLoop.simps option.case prod.case if_False)
        ultimately show ?thesis unfolding Cons by (simp only:)
      qed
    qed
  qed
qed

lemma replaceLoop_count_less:
  assumes strict: "\<And>prev s len cap. matchAt re prev s = Some (len, cap) \<Longrightarrow>
     length (filter P (expand rep cap)) < length (filter P (take len s))"
    and occ: "occursFrom re prev s"
  shows "length (filter P (replaceLoop re rep prev s)) < length (filter P s)"
  using occ
proof (induction s arbitrary: prev)
  case Nil
  then obtain r where m: "matchAt re prev [] = Some r" by auto
  obtain len cap where r: "r = (len, cap)" by (cases r)
  from strict [OF m [unfolded r]] show ?case by simp
next
  case (Cons c cs)
  have le: "length (filter P (replaceLoop re rep p t)) \<le> length (filter P t)" for p t
    by (rule replaceLoop_count_le) (use strict in \<open>simp add: less_imp_le\<close>)
  show ?case
  proof (cases "matchAt re prev (c # cs)")
    case None
    then have "occursFrom re (Some c) cs" using Cons.prems by simp
    from Cons.IH [OF this] show ?thesis using None by simp
  next
    case (Some r)
    obtain len cap where r: "r = (len, cap)" by (cases r)
    note m = Some [unfolded r]
    from strict [OF m]
    have e: "length (filter P (expand rep cap)) < length (filter P (take len (c # cs)))" .
    have False: "len \<noteq> 0"
    proof
      assume "len = 0"
      with e show False by simp
    qed
    have "length (filter P (expand rep cap @
              replaceLoop re rep (Some ((c # cs) ! (len - 1))) (drop len (c # cs))))
            < length (filter P (c # cs))"
      using e le [of "Some ((c # cs) ! (len - 1))" "drop len (c # cs)"]
        count_take_drop [of P len "c # cs"]
      by (simp only: filter_append length_append)
    moreover have "replaceLoop re rep prev (c # cs) =
            expand rep cap @ replaceLoop re rep (Some ((c # cs) ! (len - 1))) (drop len (c # cs))"
      using m False by (simp only: replaceLoop.simps option.case prod.case if_False)
    ultimately show ?thesis by (simp only:)
  qed
qed

lemma replace_count_le:
  assumes "\<And>prev s len cap. matchAt re prev s = Some (len, cap) \<Longrightarrow>
     length (filter P (expand rep cap)) \<le> length (filter P (take len s))"
  shows "length (filter P (replace s re rep)) \<le> length (filter P s)"
  unfolding replace_def using assms by (rule replaceLoop_count_le)

lemma replace_count_eq:
  assumes "\<And>prev s len cap. matchAt re prev s = Some (len, cap) \<Longrightarrow>
     length (filter P (expand rep cap)) < length (filter P (take len s))"
    and "length (filter P s) \<le> length (filter P (replace s re rep))"
  shows "\<not> occurs re s"
proof
  assume "occurs re s"
  then have "occursFrom re None s" by (simp only: occurs_def)
  with assms(1) have "length (filter P (replaceLoop re rep None s)) < length (filter P s)"
    by (rule replaceLoop_count_less)
  then show False using assms(2) by (simp add: replace_def)
qed

lemma matchAt_Some:
  "matchAt re prev s = Some r \<Longrightarrow> matchItems (items re) s = Some r"
  by (simp add: matchAt_def split: if_splits)

lemma replace_length_le:
  assumes "\<And>s len cap. matchItems (items re) s = Some (len, cap) \<Longrightarrow>
     length (expand rep cap) \<le> len"
  shows "length (replace s re rep) \<le> length s"
proof -
  have "length (filter (\<lambda>c. True) (replace s re rep)) \<le> length (filter (\<lambda>c. True) s)"
  proof (rule replace_count_le)
    fix prev s len cap
    assume "matchAt re prev s = Some (len, cap)"
    then have m: "matchItems (items re) s = Some (len, cap)" by (rule matchAt_Some)
    from assms [OF m] matchItems_length [OF m]
    show "length (filter (\<lambda>c. True) (expand rep cap)) \<le> length (filter (\<lambda>c. True) (take len s))"
      by simp
  qed
  then show ?thesis by simp
qed

lemma replace_length_eq:
  assumes "\<And>s len cap. matchItems (items re) s = Some (len, cap) \<Longrightarrow>
     length (expand rep cap) < len"
    and "length s \<le> length (replace s re rep)"
  shows "\<not> occurs re s"
proof (rule replace_count_eq [where P = "\<lambda>c. True"])
  fix prev s len cap
  assume "matchAt re prev s = Some (len, cap)"
  then have m: "matchItems (items re) s = Some (len, cap)" by (rule matchAt_Some)
  from assms(1) [OF m] matchItems_length [OF m]
  show "length (filter (\<lambda>c. True) (expand rep cap)) < length (filter (\<lambda>c. True) (take len s))"
    by simp
next
  show "length (filter (\<lambda>c. True) s) \<le> length (filter (\<lambda>c. True) (replace s re rep))"
    using assms(2) by simp
qed

text \<open>The length of a match of each pattern against the length of what replaces it.\<close>

lemma match_reFootnoteBracket:
  "matchItems (items reFootnoteBracket) s = Some (len, cap) \<Longrightarrow> length (expand [] cap) < len"
  using matchItems_minLength [of "items reFootnoteBracket" s len cap]
  by (simp add: reFootnoteBracket_def)

lemma match_reFootnoteParen:
  "matchItems (items reFootnoteParen) s = Some (len, cap) \<Longrightarrow> length (expand [] cap) < len"
  using matchItems_minLength [of "items reFootnoteParen" s len cap]
  by (simp add: reFootnoteParen_def)

lemma match_reWhitespace:
  "matchItems (items reWhitespace) s = Some (len, cap) \<Longrightarrow>
   length (expand [Lit (js '' '')] cap) \<le> len"
  using matchItems_minLength [of "items reWhitespace" s len cap]
  by (simp add: reWhitespace_def js_def)

lemma match_reBold:
  "matchItems (items reBold) s = Some (len, cap) \<Longrightarrow> length (expand [Group1] cap) < len"
  using matchItems_minLength [of "items reBold" s len cap]
  by (simp add: reBold_def)

lemma match_reItalic:
  "matchItems (items reItalic) s = Some (len, cap) \<Longrightarrow> length (expand [Group1] cap) < len"
  using matchItems_minLength [of "items reItalic" s len cap]
  by (simp add: reItalic_def)

lemma match_reLink:
  "matchItems (items reLink) s = Some (len, cap) \<Longrightarrow> length (expand [Group1] cap) < len"
  using matchItems_minLength [of "items reLink" s len cap]
  by (simp add: reLink_def)

lemma match_reListMarker:
  "matchItems (items reListMarker) s = Some (len, cap) \<Longrightarrow> length (expand [] cap) < len"
  using matchItems_minLength [of "items reListMarker" s len cap]
  by (simp add: reListMarker_def)

lemma match_reBlankLines:
  "matchItems (items reBlankLines) s = Some (len, cap) \<Longrightarrow>
   length (expand [Lit [ch CHR 0x0A, ch CHR 0x0A]] cap) < len"
  using matchItems_minLength [of "items reBlankLines" s len cap]
  by (simp add: reBlankLines_def)

lemma match_reSentenceBreak:
  "matchItems (items reSentenceBreak) s = Some (len, cap) \<Longrightarrow>
   length (expand [Group1, Lit (js '' '')] cap) \<le> len"
  using matchItems_minLength [of "items reSentenceBreak" s len cap]
  by (simp add: reSentenceBreak_def js_def)

lemma match_reParagraphBreak:
  "matchItems (items reParagraphBreak) s = Some (len, cap) \<Longrightarrow>
   length (expand [Lit (js ''. '')] cap) \<le> len"
  using matchItems_minLength [of "items reParagraphBreak" s len cap]
  by (simp add: reParagraphBreak_def js_def)

text \<open>The line feeds of a match of the last two patterns and of what replaces it.\<close>

lemma count_pos: "a \<in> set s \<Longrightarrow> 0 < length (filter (\<lambda>c. c = a) s)"
  by (induction s) auto

lemma newlines_reSentenceBreak:
  assumes "matchAt reSentenceBreak prev s = Some (len, cap)"
  shows "length (filter (\<lambda>c. c = ch CHR 0x0A) (expand [Group1, Lit (js '' '')] cap))
         < length (filter (\<lambda>c. c = ch CHR 0x0A) (take len s))"
proof -
  from assms have m: "matchItems (items reSentenceBreak) s = Some (len, cap)"
    by (rule matchAt_Some)
  have "ch CHR 0x0A \<in> set (take len s)"
    by (rule matchItems_contains [OF _ _ _ m, of "Item (Ch (ch CHR 0x0A)) One"])
       (simp_all add: reSentenceBreak_def)
  then have pos: "0 < length (filter (\<lambda>c. c = ch CHR 0x0A) (take len s))" by (rule count_pos)
  have its: "items reSentenceBreak =
      Group (OneOf [ch CHR ''.'', ch CHR ''!'', ch CHR ''?'']) One #
      [Item Space Star, Item (Ch (ch CHR 0x0A)) One, Item Space Star]"
    by (simp add: reSentenceBreak_def)
  have "\<forall>x \<in> set cap. inClass (OneOf [ch CHR ''.'', ch CHR ''!'', ch CHR ''?'']) x"
    using m unfolding its by (rule matchItems_group_first)
  then have "\<forall>x \<in> set cap. x \<noteq> ch CHR 0x0A" by (auto simp: ch_def)
  then have "filter (\<lambda>c. c = ch CHR 0x0A) cap = []" by (simp add: filter_empty_conv)
  then have "length (filter (\<lambda>c. c = ch CHR 0x0A) (expand [Group1, Lit (js '' '')] cap)) = 0"
    by (simp add: js_def ch_def)
  with pos show ?thesis by simp
qed

lemma newlines_reParagraphBreak:
  assumes "matchAt reParagraphBreak prev s = Some (len, cap)"
  shows "length (filter (\<lambda>c. c = ch CHR 0x0A) (expand [Lit (js ''. '')] cap))
         < length (filter (\<lambda>c. c = ch CHR 0x0A) (take len s))"
proof -
  from assms have m: "matchItems (items reParagraphBreak) s = Some (len, cap)"
    by (rule matchAt_Some)
  have "ch CHR 0x0A \<in> set (take len s)"
    by (rule matchItems_contains [OF _ _ _ m, of "Item (Ch (ch CHR 0x0A)) One"])
       (simp_all add: reParagraphBreak_def)
  then have pos: "0 < length (filter (\<lambda>c. c = ch CHR 0x0A) (take len s))" by (rule count_pos)
  have "length (filter (\<lambda>c. c = ch CHR 0x0A) (expand [Lit (js ''. '')] cap)) = 0"
    by (simp add: js_def ch_def)
  with pos show ?thesis by simp
qed

text \<open>A replacement that does not shorten the text has found no occurrence.\<close>

lemma unchanged_reFootnoteBracket:
  assumes "length s \<le> length (replace s reFootnoteBracket [])"
  shows "\<not> occurs reFootnoteBracket s"
  by (rule replace_length_eq [where rep = "[]"], rule match_reFootnoteBracket, assumption,
      rule assms)

lemma unchanged_reFootnoteParen:
  assumes "length s \<le> length (replace s reFootnoteParen [])"
  shows "\<not> occurs reFootnoteParen s"
  by (rule replace_length_eq [where rep = "[]"], rule match_reFootnoteParen, assumption,
      rule assms)

lemma unchanged_reBold:
  assumes "length s \<le> length (replace s reBold [Group1])"
  shows "\<not> occurs reBold s"
  by (rule replace_length_eq [where rep = "[Group1]"], rule match_reBold, assumption,
      rule assms)

lemma unchanged_reItalic:
  assumes "length s \<le> length (replace s reItalic [Group1])"
  shows "\<not> occurs reItalic s"
  by (rule replace_length_eq [where rep = "[Group1]"], rule match_reItalic, assumption,
      rule assms)

lemma unchanged_reLink:
  assumes "length s \<le> length (replace s reLink [Group1])"
  shows "\<not> occurs reLink s"
  by (rule replace_length_eq [where rep = "[Group1]"], rule match_reLink, assumption,
      rule assms)

lemma unchanged_reListMarker:
  assumes "length s \<le> length (replace s reListMarker [])"
  shows "\<not> occurs reListMarker s"
  by (rule replace_length_eq [where rep = "[]"], rule match_reListMarker, assumption,
      rule assms)

lemma unchanged_reBlankLines:
  assumes "length s \<le> length (replace s reBlankLines [Lit [ch CHR 0x0A, ch CHR 0x0A]])"
  shows "\<not> occurs reBlankLines s"
  by (rule replace_length_eq [where rep = "[Lit [ch CHR 0x0A, ch CHR 0x0A]]"],
      rule match_reBlankLines, assumption, rule assms)

lemma unchanged_reSentenceBreak:
  assumes "length (filter (\<lambda>c. c = ch CHR 0x0A) s)
           \<le> length (filter (\<lambda>c. c = ch CHR 0x0A)
                 (replace s reSentenceBreak [Group1, Lit (js '' '')]))"
  shows "\<not> occurs reSentenceBreak s"
  by (rule replace_count_eq [where rep = "[Group1, Lit (js '' '')]"
        and P = "\<lambda>c. c = ch CHR 0x0A"],
      rule newlines_reSentenceBreak, assumption, rule assms)

lemma unchanged_reParagraphBreak:
  assumes "length (filter (\<lambda>c. c = ch CHR 0x0A) s)
           \<le> length (filter (\<lambda>c. c = ch CHR 0x0A)
                 (replace s reParagraphBreak [Lit (js ''. '')]))"
  shows "\<not> occurs reParagraphBreak s"
  by (rule replace_count_eq [where rep = "[Lit (js ''. '')]"
        and P = "\<lambda>c. c = ch CHR 0x0A"],
      rule newlines_reParagraphBreak, assumption, rule assms)

text \<open>Trimming shortens the text unless it leaves it as it is.\<close>

lemma trim_length_le: "length (trim s) \<le> length s"
  using trim_parts [of s] by (metis length_append le_add1 le_add2 le_trans)

lemma trim_length_eq: "length s \<le> length (trim s) \<Longrightarrow> trim s = s"
proof -
  assume a: "length s \<le> length (trim s)"
  obtain pre post where s: "s = pre @ trim s @ post" using trim_parts [of s] by blast
  then have "length s = length pre + length (trim s) + length post"
    by (metis length_append add.assoc)
  with a have "pre = []" and "post = []" by simp_all
  with s show ?thesis by simp
qed

lemma trim_count_le: "length (filter P (trim s)) \<le> length (filter P s)"
proof -
  obtain pre post where s: "s = pre @ trim s @ post" using trim_parts [of s] by blast
  have "length (filter P (pre @ trim s @ post)) =
        length (filter P pre) + length (filter P (trim s)) + length (filter P post)"
    by simp
  then show ?thesis using s by simp
qed

text \<open>
  A fixed point of the normalizer is free of the patterns.  No step lengthens the text,
  so at a fixed point every step keeps the length: the patterns that shorten do not
  occur and trimming does nothing; the two patterns that may keep the length remove a
  line feed, and the count of line feeds is kept as well.
\<close>

lemma normalizeTextForTTS_fixed_point:
  assumes on: "clean_markdown settings" and fixed: "normalizeTextForTTS settings u = u"
  shows "patternFree settings u"
proof -
  define a where "a = replace u reFootnoteBracket []"
  define f1 where "f1 = (if remove_footnotes settings then replace a reFootnoteParen [] else u)"
  define f2 where
    "f2 = (if normalize_whitespace settings then replace f1 reWhitespace [Lit (js '' '')] else f1)"
  define f3 where "f3 = replace f2 reBold [Group1]"
  define f4 where "f4 = replace f3 reItalic [Group1]"
  define f5 where "f5 = replace f4 reLink [Group1]"
  define f6 where "f6 = replace f5 reListMarker []"
  define f7 where "f7 = replace f6 reBlankLines [Lit [ch CHR 0x0A, ch CHR 0x0A]]"
  define f8 where "f8 = replace f7 reSentenceBreak [Group1, Lit (js '' '')]"
  define f9 where "f9 = replace f8 reParagraphBreak [Lit (js ''. '')]"
  have "normalizeTextForTTS settings u = trim f9"
    unfolding f9_def f8_def f7_def f6_def f5_def f4_def f3_def f2_def f1_def a_def
      normalizeTextForTTS_def Let_def
    using on by (simp only: not_True_eq_False if_False)
  with fixed have t: "trim f9 = u" by simp

  have la: "length a \<le> length u"
    unfolding a_def by (rule replace_length_le, rule less_imp_le, rule match_reFootnoteBracket)
  have l1a: "length (replace a reFootnoteParen []) \<le> length a"
    by (rule replace_length_le, rule less_imp_le, rule match_reFootnoteParen)
  have l1: "length f1 \<le> length u" unfolding f1_def using la l1a by simp
  have l2a: "length (replace f1 reWhitespace [Lit (js '' '')]) \<le> length f1"
    by (rule replace_length_le, rule match_reWhitespace)
  have l2: "length f2 \<le> length f1" unfolding f2_def using l2a by simp
  have l3: "length f3 \<le> length f2"
    unfolding f3_def by (rule replace_length_le, rule less_imp_le, rule match_reBold)
  have l4: "length f4 \<le> length f3"
    unfolding f4_def by (rule replace_length_le, rule less_imp_le, rule match_reItalic)
  have l5: "length f5 \<le> length f4"
    unfolding f5_def by (rule replace_length_le, rule less_imp_le, rule match_reLink)
  have l6: "length f6 \<le> length f5"
    unfolding f6_def by (rule replace_length_le, rule less_imp_le, rule match_reListMarker)
  have l7: "length f7 \<le> length f6"
    unfolding f7_def by (rule replace_length_le, rule less_imp_le, rule match_reBlankLines)
  have l8: "length f8 \<le> length f7"
    unfolding f8_def by (rule replace_length_le, rule match_reSentenceBreak)
  have l9: "length f9 \<le> length f8"
    unfolding f9_def by (rule replace_length_le, rule match_reParagraphBreak)
  have lt: "length u \<le> length f9" using trim_length_le [of f9] t by simp

  have trimmed: "trim f9 = f9" by (rule trim_length_eq) (use t l9 l8 l7 l6 l5 l4 l3 l2 l1 in simp)
  then have u9: "f9 = u" using t by simp

  have foot: "\<not> occurs reFootnoteBracket u \<and> \<not> occurs reFootnoteParen u"
    if rf: "remove_footnotes settings"
  proof -
    have f1: "f1 = replace a reFootnoteParen []" using rf by (simp add: f1_def)
    have "length u \<le> length a" using lt l9 l8 l7 l6 l5 l4 l3 l2 l1a f1 by simp
    then have fb: "\<not> occurs reFootnoteBracket u"
      unfolding a_def by (rule unchanged_reFootnoteBracket)
    then have au: "a = u" unfolding a_def by (rule replace_noOccurrence)
    have "length u \<le> length (replace u reFootnoteParen [])"
      using lt l9 l8 l7 l6 l5 l4 l3 l2 f1 au by simp
    then have "\<not> occurs reFootnoteParen u"
      by (rule unchanged_reFootnoteParen)
    with fb show ?thesis by simp
  qed
  have u1: "f1 = u"
  proof (cases "remove_footnotes settings")
    case True
    from foot [OF True] show ?thesis
      unfolding f1_def a_def using True by (simp add: replace_noOccurrence)
  next
    case False
    then show ?thesis by (simp add: f1_def)
  qed

  have "length f2 \<le> length f3" using lt l9 l8 l7 l6 l5 l4 l2 l1 by simp
  then have o3: "\<not> occurs reBold f2"
    unfolding f3_def by (rule unchanged_reBold)
  then have e3: "f3 = f2" unfolding f3_def by (rule replace_noOccurrence)
  have "length f3 \<le> length f4" using lt l9 l8 l7 l6 l5 l3 l2 l1 by simp
  then have o4: "\<not> occurs reItalic f3"
    unfolding f4_def by (rule unchanged_reItalic)
  then have e4: "f4 = f3" unfolding f4_def by (rule replace_noOccurrence)
  have "length f4 \<le> length f5" using lt l9 l8 l7 l6 l4 l3 l2 l1 by simp
  then have o5: "\<not> occurs reLink f4"
    unfolding f5_def by (rule unchanged_reLink)
  then have e5: "f5 = f4" unfolding f5_def by (rule replace_noOccurrence)
  have "length f5 \<le> length f6" using lt l9 l8 l7 l5 l4 l3 l2 l1 by simp
  then have o6: "\<not> occurs reListMarker f5"
    unfolding f6_def by (rule unchanged_reListMarker)
  then have e6: "f6 = f5" unfolding f6_def by (rule replace_noOccurrence)
  have "length f6 \<le> length f7" using lt l9 l8 l6 l5 l4 l3 l2 l1 by simp
  then have o7: "\<not> occurs reBlankLines f6"
    unfolding f7_def by (rule unchanged_reBlankLines)
  then have e7: "f7 = f6" unfolding f7_def by (rule replace_noOccurrence)
  have u7: "f7 = f2" "f6 = f2" "f5 = f2" "f4 = f2" "f3 = f2"
    using e3 e4 e5 e6 e7 by simp_all

  have last: "f2 = u \<and> \<not> occurs reSentenceBreak u \<and> \<not> occurs reParagraphBreak u \<and>
      (normalize_whitespace settings \<longrightarrow> singleSpaced u)"
  proof (cases "normalize_whitespace settings")
    case True
    then have c: "f2 = replaceLoop reWhitespace [Lit (js '' '')] None u"
      by (simp add: f2_def u1 replace_def)
    have nolt: "\<forall>c \<in> set f2. \<not> isLineTerminator c"
      unfolding c using collapse_no_lineTerminator by blast
    have o8: "\<not> occurs reSentenceBreak f2" using nolt by (rule occurs_no_newline)
    have o9: "\<not> occurs reParagraphBreak f2" using nolt by (rule occurs_no_newline)
    have "f8 = f2" unfolding f8_def u7 using o8 by (rule replace_noOccurrence)
    then have "f9 = f2" unfolding f9_def using o9 by (simp add: replace_noOccurrence)
    then have e: "f2 = u" using u9 by simp
    have "singleSpaced f2" unfolding c by (rule collapse_singleSpaced)
    then show ?thesis using e o8 o9 by simp
  next
    case False
    then have e: "f2 = u" by (simp add: f2_def u1)
    let ?n = "\<lambda>s. length (filter (\<lambda>c. c = ch CHR 0x0A) s)"
    have n8: "?n f8 \<le> ?n f7"
      unfolding f8_def
      by (rule replace_count_le, rule less_imp_le, rule newlines_reSentenceBreak)
    have n9: "?n f9 \<le> ?n f8"
      unfolding f9_def
      by (rule replace_count_le, rule less_imp_le, rule newlines_reParagraphBreak)
    have 79: "f7 = f9" using u7 e u9 by simp
    have "?n f7 \<le> ?n f8" using n9 79 by simp
    then have o8: "\<not> occurs reSentenceBreak f7"
      unfolding f8_def by (rule unchanged_reSentenceBreak)
    then have e8: "f8 = f7" unfolding f8_def by (rule replace_noOccurrence)
    have "?n f8 \<le> ?n f9" using e8 79 by simp
    then have o9: "\<not> occurs reParagraphBreak f8"
      unfolding f9_def by (rule unchanged_reParagraphBreak)
    show ?thesis using False e o8 o9 e8 u7 by simp
  qed
  then have e: "f2 = u" by simp
  have "\<not> occurs reBold u" "\<not> occurs reItalic u" "\<not> occurs reLink u"
    "\<not> occurs reListMarker u" "\<not> occurs reBlankLines u"
    using o3 o4 o5 o6 o7 u7 e by simp_all
  moreover have "trim u = u" using trimmed u9 by simp
  ultimately show ?thesis
    unfolding patternFree_def using foot last by (simp only: simp_thms split: if_split) blast
qed

text \<open>
  C4, as the code has it.  With \<open>clean_markdown\<close> off the normalizer is idempotent at
  every text.  Under all settings a text free of the patterns is a fixed point:
  normalizing it is a no-op.  With white-space normalization the normalizer is
  idempotent at every text without markup characters, whatever its white space:
  \<open>normalize (normalize t) = normalize t\<close>.  And with \<open>clean_markdown\<close> on,
  \<open>normalize (normalize t) = normalize t\<close> holds exactly at the texts \<open>t\<close> whose
  normal form is free of the patterns.
\<close>

theorem normalizeTextForTTS_idempotence:
  "(\<not> clean_markdown settings \<longrightarrow>
      normalizeTextForTTS settings (normalizeTextForTTS settings t) =
      normalizeTextForTTS settings t) \<and>
   (patternFree settings t \<longrightarrow> normalizeTextForTTS settings t = t) \<and>
   (normalize_whitespace settings \<and> markupFree settings t \<longrightarrow>
      normalizeTextForTTS settings (normalizeTextForTTS settings t) =
      normalizeTextForTTS settings t) \<and>
   (clean_markdown settings \<longrightarrow>
      (normalizeTextForTTS settings (normalizeTextForTTS settings t) =
       normalizeTextForTTS settings t \<longleftrightarrow>
       patternFree settings (normalizeTextForTTS settings t)))"
proof (intro conjI impI)
  assume "\<not> clean_markdown settings"
  then show "normalizeTextForTTS settings (normalizeTextForTTS settings t) =
      normalizeTextForTTS settings t"
    by (simp add: normalizeTextForTTS_def)
next
  assume "patternFree settings t"
  then show "normalizeTextForTTS settings t = t" by (rule normalizeTextForTTS_patternFree)
next
  assume a: "normalize_whitespace settings \<and> markupFree settings t"
  show "normalizeTextForTTS settings (normalizeTextForTTS settings t) =
      normalizeTextForTTS settings t"
  proof (cases "clean_markdown settings")
    case False
    then show ?thesis by (simp add: normalizeTextForTTS_def)
  next
    case True
    from a have nw: "normalize_whitespace settings" and mf: "markupFree settings t"
      by simp_all
    have "patternFree settings (normalizeTextForTTS settings t)"
      using normalizeTextForTTS_markupFree [OF True nw mf] by simp
    then show ?thesis by (rule normalizeTextForTTS_patternFree)
  qed
next
  assume on: "clean_markdown settings"
  show "normalizeTextForTTS settings (normalizeTextForTTS settings t) =
       normalizeTextForTTS settings t \<longleftrightarrow>
       patternFree settings (normalizeTextForTTS settings t)"
  proof
    assume "normalizeTextForTTS settings (normalizeTextForTTS settings t) =
       normalizeTextForTTS settings t"
    with on show "patternFree settings (normalizeTextForTTS settings t)"
      by (rule normalizeTextForTTS_fixed_point)
  next
    assume "patternFree settings (normalizeTextForTTS settings t)"
    then show "normalizeTextForTTS settings (normalizeTextForTTS settings t) =
       normalizeTextForTTS settings t"
      by (rule normalizeTextForTTS_patternFree)
  qed
qed

text \<open>
  With \<open>clean_markdown\<close> off, the text of the counterexample; three fixed points with a
  parenthesis, an asterisk and square brackets; a text with a tab, a double space, a
  line terminator and a space at the end, whose normal form \<open>Hi, there - x\<close> is
  normalized to itself; a text with markup whose normal form \<open>bold text\<close> is free of
  the patterns; and \<open>- - a\<close>, whose normal form \<open>- a\<close> is not, and is not
  a fixed point.
\<close>

theorem normalizeTextForTTS_idempotence_witness:
  "\<not> clean_markdown (globalSettings\<lparr>clean_markdown := False\<rparr>) \<and>
   normalizeTextForTTS (globalSettings\<lparr>clean_markdown := False\<rparr>)
     (normalizeTextForTTS (globalSettings\<lparr>clean_markdown := False\<rparr>) (js ''- - a'')) =
   normalizeTextForTTS (globalSettings\<lparr>clean_markdown := False\<rparr>) (js ''- - a'') \<and>
   patternFree globalSettings (js ''Hello (world)'') \<and>
   normalizeTextForTTS globalSettings (js ''Hello (world)'') = js ''Hello (world)'' \<and>
   patternFree globalSettings (js ''5 * 3 = 15'') \<and>
   normalizeTextForTTS globalSettings (js ''5 * 3 = 15'') = js ''5 * 3 = 15'' \<and>
   patternFree globalSettings (js ''He said [sic] so'') \<and>
   normalizeTextForTTS globalSettings (js ''He said [sic] so'') = js ''He said [sic] so'' \<and>
   normalize_whitespace globalSettings \<and>
   markupFree globalSettings ([ch CHR 0x09] @ js ''Hi,  there'' @ [ch CHR 0x0A] @ js ''- x '') \<and>
   normalizeTextForTTS globalSettings
     ([ch CHR 0x09] @ js ''Hi,  there'' @ [ch CHR 0x0A] @ js ''- x '') = js ''Hi, there - x'' \<and>
   normalizeTextForTTS globalSettings (js ''Hi, there - x'') = js ''Hi, there - x'' \<and>
   clean_markdown globalSettings \<and>
   normalizeTextForTTS globalSettings (js ''**bold**  text [1]'') = js ''bold text'' \<and>
   patternFree globalSettings (js ''bold text'') \<and>
   normalizeTextForTTS globalSettings (js ''bold text'') = js ''bold text'' \<and>
   normalizeTextForTTS globalSettings (js ''- - a'') = js ''- a'' \<and>
   \<not> patternFree globalSettings (js ''- a'') \<and>
   normalizeTextForTTS globalSettings (js ''- a'') \<noteq> js ''- a''"
proof -
  let ?off = "globalSettings\<lparr>clean_markdown := False\<rparr>"
  let ?t = "[ch CHR 0x09] @ js ''Hi,  there'' @ [ch CHR 0x0A] @ js ''- x ''"
  have off: "\<not> clean_markdown ?off" by (simp add: globalSettings_def)
  have on: "clean_markdown globalSettings" by (simp add: globalSettings_def)
  have p1: "patternFree globalSettings (js ''Hello (world)'')" by code_simp
  have p2: "patternFree globalSettings (js ''5 * 3 = 15'')" by code_simp
  have p3: "patternFree globalSettings (js ''He said [sic] so'')" by code_simp
  have p4: "patternFree globalSettings (js ''bold text'')" by code_simp
  have p5: "\<not> patternFree globalSettings (js ''- a'')" by code_simp
  have nw: "normalize_whitespace globalSettings" by (simp add: globalSettings_def)
  have mf: "markupFree globalSettings ?t" by code_simp
  have n: "normalizeTextForTTS globalSettings ?t = js ''Hi, there - x''" by code_simp
  have nb: "normalizeTextForTTS globalSettings (js ''**bold**  text [1]'') = js ''bold text''"
    by code_simp
  have nl: "normalizeTextForTTS globalSettings (js ''- - a'') = js ''- a''" by code_simp
  have a: "normalizeTextForTTS ?off (normalizeTextForTTS ?off (js ''- - a'')) =
      normalizeTextForTTS ?off (js ''- - a'')"
    using normalizeTextForTTS_idempotence [of ?off "js ''- - a''"] off by blast
  have b1: "normalizeTextForTTS globalSettings (js ''Hello (world)'') = js ''Hello (world)''"
    using normalizeTextForTTS_idempotence [of globalSettings "js ''Hello (world)''"] p1
    by blast
  have b2: "normalizeTextForTTS globalSettings (js ''5 * 3 = 15'') = js ''5 * 3 = 15''"
    using normalizeTextForTTS_idempotence [of globalSettings "js ''5 * 3 = 15''"] p2
    by blast
  have b3: "normalizeTextForTTS globalSettings (js ''He said [sic] so'') = js ''He said [sic] so''"
    using normalizeTextForTTS_idempotence [of globalSettings "js ''He said [sic] so''"] p3
    by blast
  have c: "normalizeTextForTTS globalSettings (normalizeTextForTTS globalSettings ?t) =
      normalizeTextForTTS globalSettings ?t"
    using normalizeTextForTTS_idempotence [of globalSettings ?t] nw mf by blast
  have c': "normalizeTextForTTS globalSettings (js ''Hi, there - x'') = js ''Hi, there - x''"
    using c unfolding n .
  have d: "normalizeTextForTTS globalSettings
        (normalizeTextForTTS globalSettings (js ''**bold**  text [1]'')) =
      normalizeTextForTTS globalSettings (js ''**bold**  text [1]'')"
    using normalizeTextForTTS_idempotence [of globalSettings "js ''**bold**  text [1]''"]
      on p4 unfolding nb by blast
  have d': "normalizeTextForTTS globalSettings (js ''bold text'') = js ''bold text''"
    using d unfolding nb .
  have e: "normalizeTextForTTS globalSettings
        (normalizeTextForTTS globalSettings (js ''- - a'')) \<noteq>
      normalizeTextForTTS globalSettings (js ''- - a'')"
    using normalizeTextForTTS_idempotence [of globalSettings "js ''- - a''"]
      on p5 unfolding nl by blast
  have e': "normalizeTextForTTS globalSettings (js ''- a'') \<noteq> js ''- a''"
    using e unfolding nl .
  show ?thesis using off a p1 b1 p2 b2 p3 b3 nw mf n c' on nb p4 d' nl p5 e' by blast
qed

end
